theory Spec2Isabelle
  imports Main
begin

section \<open>The transparently un-gzipping stream of transparentunzip.py\<close>

text \<open>
  The module holds one class, \<open>TransparentUnzip\<close>, wrapping a byte stream and a zlib
  decompression object. Byte strings (Python 2 \<open>str\<close>) are lists of 8-bit characters.
\<close>

type_synonym bytes = string

subsection \<open>The two collaborators\<close>

text \<open>
  zlib is not part of the module, so the decompression object is a parameter: the
  operations the class calls on it, over a type \<open>'d\<close> of decoder states.
  \<^item> \<open>decompressobj\<close>: \<open>zlib.decompressobj(zlib.MAX_WBITS + 16)\<close>, a fresh decoder;
  \<^item> \<open>decompress d c\<close>: \<open>d.decompress(c)\<close>; the decoder after the call and the bytes
    returned, or \<open>None\<close> where \<open>zlib.error\<close> is raised;
  \<^item> \<open>flush d\<close>: \<open>d.flush()\<close>; the decoder after the call and the bytes returned;
  \<^item> \<open>unused_data d\<close>: the attribute \<open>d.unused_data\<close>.
\<close>

record 'd zlib =
  decompressobj :: 'd
  decompress :: "'d \<Rightarrow> bytes \<Rightarrow> 'd \<times> bytes option"
  flush :: "'d \<Rightarrow> 'd \<times> bytes"
  unused_data :: "'d \<Rightarrow> bytes"

text \<open>
  The underlying stream is file-like: it holds the bytes not yet handed out, and
  \<open>stream.read(n)\<close> hands out the first \<open>n\<close> of them (all of them when fewer are left,
  the empty string at the end).
\<close>

definition stream_read :: "nat \<Rightarrow> bytes \<Rightarrow> bytes \<times> bytes" where
  "stream_read n data = (take n data, drop n data)"

text \<open>The literal \<open>16 * 2 ** 10\<close> of line 88.\<close>

definition CHUNK :: nat where
  "CHUNK = 16 * 2 ^ 10"

subsection \<open>The object\<close>

text \<open>
  The fields set by \<open>__init__\<close>. \<open>decompressor\<close> is \<open>None\<close> once the decoder was flushed
  at the end; \<open>header_read\<close> is Python's \<open>None\<close>, \<open>True\<close> or \<open>False\<close>.
\<close>

record 'd unzip =
  stream :: bytes
  decompressor :: "'d option"
  header_read :: "bool option"
  buffer :: bytes
  compressed_bytes :: nat
  uncompressed_bytes :: nat

definition init :: "'d zlib \<Rightarrow> bytes \<Rightarrow> 'd unzip" where
  "init Z data =
     \<lparr>stream = data, decompressor = Some (decompressobj Z), header_read = None,
      buffer = [], compressed_bytes = 0, uncompressed_bytes = 0\<rparr>"

text \<open>
  Exceptions are values: \<open>zlib.error\<close> from a \<open>decompress\<close> call outside the \<open>try\<close>,
  \<open>AttributeError\<close> from a method call on a \<open>decompressor\<close> that is \<open>None\<close>, and
  \<open>StopIteration\<close> from \<open>next\<close>. A raising call leaves the object as mutated so far, so
  an outcome carries the object in both cases.
\<close>

datatype error = ZlibError | AttributeError | StopIteration

type_synonym ('a, 'd) outcome = "(error \<times> 'd unzip) + ('a \<times> 'd unzip)"

fun state_of :: "('a, 'd) outcome \<Rightarrow> 'd unzip" where
  "state_of (Inl (e, s)) = s"
| "state_of (Inr (a, s)) = s"

subsection \<open>buffer_chunk\<close>

text \<open>
  Lines 70 to 90: where the next piece of input comes from. Either the bytes a finished
  decoder left unused (the decoder is flushed into the buffer and replaced by a fresh
  one), or a chunk of \<open>n\<close> bytes of the stream, counted in \<open>compressed_bytes\<close>. The
  source has \<open>n = CHUNK\<close>.
\<close>

definition from_stream :: "nat \<Rightarrow> 'd unzip \<Rightarrow> bytes \<times> 'd unzip" where
  "from_stream n s =
     (let (compressed, rest) = stream_read n (stream s)
      in (compressed,
          s\<lparr>stream := rest, compressed_bytes := compressed_bytes s + length compressed\<rparr>))"

definition next_input :: "'d zlib \<Rightarrow> nat \<Rightarrow> 'd unzip \<Rightarrow> bytes \<times> 'd unzip" where
  "next_input Z n s =
     (case decompressor s of
        Some d \<Rightarrow>
          if length (unused_data Z d) > 0 then
            (let (d', flushed) = flush Z d
             in (unused_data Z d',
                 s\<lparr>buffer := buffer s @ flushed, decompressor := Some (decompressobj Z)\<rparr>))
          else from_stream n s
      | None \<Rightarrow> from_stream n s)"

text \<open>Lines 92 to 113: no input is left.\<close>

definition out_of_input :: "'d zlib \<Rightarrow> 'd unzip \<Rightarrow> (bool, 'd) outcome" where
  "out_of_input Z s =
     (case decompressor s of
        Some d \<Rightarrow>
          if header_read s = Some True then
            (let (d', decompressed) = flush Z d
             in Inr (True, s\<lparr>buffer := buffer s @ decompressed, decompressor := None\<rparr>))
          else Inr (False, s)
      | None \<Rightarrow> Inr (False, s))"

text \<open>
  Lines 116 to 153: the input goes to the buffer, decompressed or as it is. The first
  input decides \<open>header_read\<close>; \<open>zlib.error\<close> is caught there and nowhere else.
\<close>

definition absorb :: "'d zlib \<Rightarrow> bytes \<Rightarrow> 'd unzip \<Rightarrow> (bool, 'd) outcome" where
  "absorb Z compressed s =
     (case header_read s of
        None \<Rightarrow>
          (case decompressor s of
             None \<Rightarrow> Inl (AttributeError, s)
           | Some d \<Rightarrow>
               (case decompress Z d compressed of
                  (d', Some decompressed) \<Rightarrow>
                    Inr (True, s\<lparr>decompressor := Some d',
                                 buffer := buffer s @ decompressed,
                                 header_read := Some True\<rparr>)
                | (d', None) \<Rightarrow>
                    Inr (True, s\<lparr>decompressor := Some d',
                                 buffer := buffer s @ compressed,
                                 header_read := Some False\<rparr>)))
      | Some True \<Rightarrow>
          (case decompressor s of
             None \<Rightarrow> Inl (AttributeError, s)
           | Some d \<Rightarrow>
               (case decompress Z d compressed of
                  (d', Some decompressed) \<Rightarrow>
                    Inr (True, s\<lparr>decompressor := Some d',
                                 buffer := buffer s @ decompressed\<rparr>)
                | (d', None) \<Rightarrow> Inl (ZlibError, s\<lparr>decompressor := Some d'\<rparr>)))
      | Some False \<Rightarrow> Inr (True, s\<lparr>buffer := buffer s @ compressed\<rparr>))"

definition buffer_chunk :: "'d zlib \<Rightarrow> nat \<Rightarrow> 'd unzip \<Rightarrow> (bool, 'd) outcome" where
  "buffer_chunk Z n s =
     (let (compressed, s1) = next_input Z n s
      in if compressed = [] then out_of_input Z s1 else absorb Z compressed s1)"

subsection \<open>read\<close>

text \<open>
  The loop of line 48, \<open>while size > len(self.buffer) and self.buffer_chunk()\<close>. It is
  not bounded by anything in the class, so not returning is the value \<open>None\<close>.
  (\<open>sz\<close> is the argument \<open>size\<close>.)
\<close>

partial_function (option) fill ::
  "'d zlib \<Rightarrow> nat \<Rightarrow> nat \<Rightarrow> 'd unzip \<Rightarrow> ((error \<times> 'd unzip) + 'd unzip) option"
where
  "fill Z n sz s =
     (if sz > length (buffer s) then
        (case buffer_chunk Z n s of
           Inl e \<Rightarrow> Some (Inl e)
         | Inr (got, s') \<Rightarrow> if got then fill Z n sz s' else Some (Inr s'))
      else Some (Inr s))"

declare fill.simps [code]

text \<open>Lines 56 to 62: the slice \<open>buffer[0:size]\<close> leaves, \<open>buffer[size:]\<close> stays.\<close>

definition pull_off :: "nat \<Rightarrow> 'd unzip \<Rightarrow> bytes \<times> 'd unzip" where
  "pull_off sz s =
     (let part = take sz (buffer s)
      in (part, s\<lparr>buffer := drop sz (buffer s),
                  uncompressed_bytes := uncompressed_bytes s + length part\<rparr>))"

definition read :: "'d zlib \<Rightarrow> nat \<Rightarrow> nat \<Rightarrow> 'd unzip \<Rightarrow> (bytes, 'd) outcome option" where
  "read Z n sz s =
     (case fill Z n sz s of
        None \<Rightarrow> None
      | Some (Inl e) \<Rightarrow> Some (Inl e)
      | Some (Inr s') \<Rightarrow> Some (Inr (pull_off sz s')))"

subsection \<open>readline and the iterator\<close>

text \<open>
  \<open>str.find("\n", start)\<close>: the lowest index from \<open>start\<close> on that holds a newline.
  Python's \<open>-1\<close> is \<open>None\<close> here.
\<close>

fun index_of :: "char \<Rightarrow> bytes \<Rightarrow> nat option" where
  "index_of c [] = None"
| "index_of c (x # xs) = (if x = c then Some 0 else map_option Suc (index_of c xs))"

definition find_newline :: "bytes \<Rightarrow> nat \<Rightarrow> nat option" where
  "find_newline b start = map_option (\<lambda>i. start + i) (index_of (CHR 0x0A) (drop start b))"

text \<open>
  The loop of lines 197 to 207, with its two variables \<open>newline_index\<close> and \<open>checked\<close>;
  \<open>max_bytes\<close> is \<open>None\<close> or a number.
\<close>

partial_function (option) scan ::
  "'d zlib \<Rightarrow> nat \<Rightarrow> nat option \<Rightarrow> nat option \<Rightarrow> nat \<Rightarrow> 'd unzip \<Rightarrow>
     ((error \<times> 'd unzip) + (nat option \<times> 'd unzip)) option"
where
  "scan Z n max_bytes newline_index checked s =
     (if newline_index = None \<and>
         (case max_bytes of None \<Rightarrow> True | Some m \<Rightarrow> length (buffer s) < m) then
        (case buffer_chunk Z n s of
           Inl e \<Rightarrow> Some (Inl e)
         | Inr (got, s') \<Rightarrow>
             if got then
               scan Z n max_bytes (find_newline (buffer s') checked) (length (buffer s')) s'
             else Some (Inr (newline_index, s')))
      else Some (Inr (newline_index, s)))"

declare scan.simps [code]

definition readline ::
  "'d zlib \<Rightarrow> nat \<Rightarrow> nat option \<Rightarrow> 'd unzip \<Rightarrow> (bytes, 'd) outcome option" where
  "readline Z n max_bytes s =
     (case scan Z n max_bytes (find_newline (buffer s) 0) (length (buffer s)) s of
        None \<Rightarrow> None
      | Some (Inl e) \<Rightarrow> Some (Inl e)
      | Some (Inr (newline_index, s')) \<Rightarrow>
          (case newline_index of
             None \<Rightarrow>
               (case max_bytes of
                  None \<Rightarrow> read Z n (length (buffer s')) s'
                | Some m \<Rightarrow> read Z n m s')
           | Some i \<Rightarrow> read Z n (i + 1) s'))"

text \<open>\<open>next\<close> (a keyword here, hence the longer name) and \<open>__iter__\<close>.\<close>

definition next_line :: "'d zlib \<Rightarrow> nat \<Rightarrow> 'd unzip \<Rightarrow> (bytes, 'd) outcome option" where
  "next_line Z n s =
     (case readline Z n None s of
        None \<Rightarrow> None
      | Some (Inl e) \<Rightarrow> Some (Inl e)
      | Some (Inr (line, s')) \<Rightarrow>
          if line = [] then Some (Inl (StopIteration, s')) else Some (Inr (line, s')))"

definition iter :: "'d unzip \<Rightarrow> 'd unzip" where
  "iter s = s"

subsection \<open>Statistics\<close>

definition start_stats :: "'d unzip \<Rightarrow> 'd unzip" where
  "start_stats s = s\<lparr>compressed_bytes := 0, uncompressed_bytes := 0\<rparr>"

definition get_stats :: "'d unzip \<Rightarrow> nat \<times> nat" where
  "get_stats s = (compressed_bytes s, uncompressed_bytes s)"

subsection \<open>Callers\<close>

text \<open>
  A caller makes one call after another on the same object; an exception ends the
  sequence. The results of the calls are collected in order.
\<close>

datatype call = Read nat | Readline "nat option"

fun perform :: "'d zlib \<Rightarrow> nat \<Rightarrow> call \<Rightarrow> 'd unzip \<Rightarrow> (bytes, 'd) outcome option" where
  "perform Z n (Read sz) s = read Z n sz s"
| "perform Z n (Readline max_bytes) s = readline Z n max_bytes s"

fun run :: "'d zlib \<Rightarrow> nat \<Rightarrow> call list \<Rightarrow> 'd unzip \<Rightarrow> (bytes list, 'd) outcome option" where
  "run Z n [] s = Some (Inr ([], s))"
| "run Z n (c # cs) s =
     (case perform Z n c s of
        None \<Rightarrow> None
      | Some (Inl e) \<Rightarrow> Some (Inl e)
      | Some (Inr (x, s')) \<Rightarrow>
          (case run Z n cs s' of
             None \<Rightarrow> None
           | Some (Inl e) \<Rightarrow> Some (Inl e)
           | Some (Inr (xs, s'')) \<Rightarrow> Some (Inr (x # xs, s''))))"

subsection \<open>What the class relies on in zlib\<close>

text \<open>
  Four facts about a decompression object that the class takes for granted: a fresh one
  has no unused data; \<open>flush\<close> leaves \<open>unused_data\<close> alone; a fresh one that rejects its
  input has no unused data afterwards; and a fresh one that accepts a non-empty input
  has consumed some of it, so what it leaves unused is shorter than what it was given.
\<close>

definition codec_wf :: "'d zlib \<Rightarrow> bool" where
  "codec_wf Z \<longleftrightarrow>
     unused_data Z (decompressobj Z) = [] \<and>
     (\<forall>d. unused_data Z (fst (flush Z d)) = unused_data Z d) \<and>
     (\<forall>c. snd (decompress Z (decompressobj Z) c) = None \<longrightarrow>
          unused_data Z (fst (decompress Z (decompressobj Z) c)) = []) \<and>
     (\<forall>c. c \<noteq> [] \<longrightarrow> snd (decompress Z (decompressobj Z) c) \<noteq> None \<longrightarrow>
          length (unused_data Z (fst (decompress Z (decompressobj Z) c))) < length c)"

subsection \<open>A miniature member format for the examples\<close>

text \<open>
  The examples need a decoder that runs. This one reads members of the form
  \<open><payload>\<close>: an opening bracket stands for the gzip header, a closing bracket for
  the end of the deflate stream and its trailer, and the payload holds neither. Like
  a zlib decompression object it rejects input that does not start with the header or
  that is corrupt inside a member, it returns the payload as it comes in, and it
  collects in \<open>unused_data\<close> whatever follows the end of the member.
\<close>

datatype phase = Header | Body | Done | Broken

fun bracket_run :: "phase \<Rightarrow> bytes \<Rightarrow> phase \<times> bytes \<times> bytes option" where
  "bracket_run Header [] = (Header, [], Some [])"
| "bracket_run Header (c # cs) =
     (if c = CHR ''<'' then bracket_run Body cs else (Broken, [], None))"
| "bracket_run Body [] = (Body, [], Some [])"
| "bracket_run Body (c # cs) =
     (if c = CHR ''>'' then (Done, cs, Some [])
      else if c = CHR ''<'' then (Broken, [], None)
      else (case bracket_run Body cs of
              (p, u, Some out) \<Rightarrow> (p, u, Some (c # out))
            | (p, u, None) \<Rightarrow> (p, u, None)))"
| "bracket_run Done cs = (Done, cs, Some [])"
| "bracket_run Broken cs = (Broken, [], None)"

definition bracket_decompress :: "phase \<times> bytes \<Rightarrow> bytes \<Rightarrow> (phase \<times> bytes) \<times> bytes option" where
  "bracket_decompress d c =
     (case bracket_run (fst d) c of (p, u, out) \<Rightarrow> ((p, snd d @ u), out))"

definition bracket :: "(phase \<times> bytes) zlib" where
  "bracket =
     \<lparr>decompressobj = (Header, []), decompress = bracket_decompress,
      flush = (\<lambda>d. (d, [])), unused_data = snd\<rparr>"

section \<open>Notions for the statements and the proofs\<close>

text \<open>
  One refill that succeeds: \<open>buffer_chunk\<close> returns \<open>True\<close>.
\<close>

definition refill :: "'d zlib \<Rightarrow> nat \<Rightarrow> 'd unzip \<Rightarrow> 'd unzip \<Rightarrow> bool" where
  "refill Z n s s' \<longleftrightarrow> buffer_chunk Z n s = Inr (True, s')"

text \<open>
  How the loop of \<open>read\<close> ends at an object \<open>s0\<close>: the buffer is long enough, or
  \<open>buffer_chunk\<close> raises, or it returns \<open>False\<close>.
\<close>

definition fill_end :: "'d zlib \<Rightarrow> nat \<Rightarrow> nat \<Rightarrow> 'd unzip \<Rightarrow> (error \<times> 'd unzip) + 'd unzip \<Rightarrow> bool" where
  "fill_end Z n sz s0 r \<longleftrightarrow>
     (if sz \<le> length (buffer s0) then r = Inr s0
      else (case buffer_chunk Z n s0 of Inl e \<Rightarrow> r = Inl e
            | Inr (got, s') \<Rightarrow> \<not> got \<and> r = Inr s'))"

text \<open>
  \<open>buffer_chunk\<close> reads neither the buffer nor \<open>uncompressed_bytes\<close>. Called on \<open>s\<close>
  with the buffer replaced by \<open>b\<close> and the counter by \<open>u\<close>, it ends as it does on \<open>s\<close>,
  the bytes it appends now standing after \<open>b\<close>.
\<close>

definition relay :: "bytes \<Rightarrow> nat \<Rightarrow> 'd unzip \<Rightarrow> 'd unzip \<Rightarrow> 'd unzip" where
  "relay b u s s' = s'\<lparr>buffer := b @ drop (length (buffer s)) (buffer s'), uncompressed_bytes := u\<rparr>"

fun relay_outcome :: "bytes \<Rightarrow> nat \<Rightarrow> 'd unzip \<Rightarrow> ('a, 'd) outcome \<Rightarrow> ('a, 'd) outcome" where
  "relay_outcome b u s (Inl (e, s')) = Inl (e, relay b u s s')"
| "relay_outcome b u s (Inr (a, s')) = Inr (a, relay b u s s')"

text \<open>
  The buffer of \<open>s'\<close> is the buffer of \<open>s\<close> with bytes added at its end.
\<close>

definition extends :: "'d unzip \<Rightarrow> 'd unzip \<Rightarrow> bool" where
  "extends s s' \<longleftrightarrow> (\<exists>a. buffer s' = buffer s @ a)"

text \<open>
  \<open>exhausts Z n s X\<close>: called again and again on \<open>s\<close>, \<open>buffer_chunk\<close> returns \<open>True\<close>
  finitely often and then \<open>False\<close>, never raising, and \<open>X\<close> is the buffer at that
  moment. So \<open>X\<close> is everything the object has yet to deliver.
\<close>

inductive exhausts :: "'d zlib \<Rightarrow> nat \<Rightarrow> 'd unzip \<Rightarrow> bytes \<Rightarrow> bool" for Z n where
  stop: "buffer_chunk Z n s = Inr (False, s') \<Longrightarrow> exhausts Z n s (buffer s')"
| step: "buffer_chunk Z n s = Inr (True, s') \<Longrightarrow> exhausts Z n s' out \<Longrightarrow> exhausts Z n s out"

text \<open>
  The measure that bounds the refills: the bytes left in the stream, then the unused
  data of the decoder (and whether there is a decoder at all).
\<close>

definition pending :: "'d zlib \<Rightarrow> 'd unzip \<Rightarrow> nat" where
  "pending Z s = (case decompressor s of None \<Rightarrow> 0 | Some d \<Rightarrow> Suc (length (unused_data Z d)))"

definition remains :: "'d zlib \<Rightarrow> ('d unzip \<times> 'd unzip) set" where
  "remains Z = measures [\<lambda>s. length (stream s), pending Z]"

text \<open>
  The second conjunct of the loop condition of \<open>readline\<close>.
\<close>

definition room :: "nat option \<Rightarrow> 'd unzip \<Rightarrow> bool" where
  "room max_bytes s = (case max_bytes of None \<Rightarrow> True | Some m \<Rightarrow> length (buffer s) < m)"

text \<open>
  An exhausted object: nothing in the stream, nothing in the buffer, and a refill that
  reports no more data and changes nothing.
\<close>

definition exhausted :: "'d zlib \<Rightarrow> nat \<Rightarrow> 'd unzip \<Rightarrow> bool" where
  "exhausted Z n s \<longleftrightarrow>
     stream s = [] \<and> buffer s = [] \<and> buffer_chunk Z n s = Inr (False, s)"

text \<open>
  How the loop of \<open>readline\<close> ends at an object \<open>s0\<close> with \<open>newline_index = ni\<close>.
\<close>

definition scan_end ::
  "'d zlib \<Rightarrow> nat \<Rightarrow> nat option \<Rightarrow> nat option \<Rightarrow> 'd unzip \<Rightarrow> (nat option, 'd) outcome \<Rightarrow> bool" where
  "scan_end Z n mb ni s0 r \<longleftrightarrow>
     (if ni = None \<and> room mb s0 then
        (case buffer_chunk Z n s0 of Inl e \<Rightarrow> r = Inl e
         | Inr (got, s') \<Rightarrow> \<not> got \<and> r = Inr (None, s'))
      else r = Inr (ni, s0))"

text \<open>
  The object after the loop of \<open>read\<close>, whether it raised or not.
\<close>

fun fill_state :: "(error \<times> 'd unzip) + 'd unzip \<Rightarrow> 'd unzip" where
  "fill_state (Inl (e, s)) = s"
| "fill_state (Inr s) = s"

text \<open>
  The size \<open>readline\<close> passes to \<open>read\<close> after its loop (lines 209 to 221).
\<close>

definition wanted :: "nat option \<Rightarrow> nat option \<Rightarrow> 'd unzip \<Rightarrow> nat" where
  "wanted mb nj s =
     (case nj of Some i \<Rightarrow> i + 1
      | None \<Rightarrow> (case mb of None \<Rightarrow> length (buffer s) | Some m \<Rightarrow> m))"

text \<open>
  The results by which a call tells its caller that nothing is left: fewer bytes than
  asked for, or an empty line.
\<close>

fun signals_end :: "call \<Rightarrow> bytes \<Rightarrow> bool" where
  "signals_end (Read sz) x = (length x < sz)"
| "signals_end (Readline None) x = (x = [])"
| "signals_end (Readline (Some m)) x = (x = [] \<and> 0 < m)"

text \<open>
  \<open>X\<close> cut into pieces of the given sizes, the last ones shorter or empty when \<open>X\<close>
  runs out.
\<close>

fun slices :: "nat list \<Rightarrow> bytes \<Rightarrow> bytes list" where
  "slices [] X = []"
| "slices (k # ks) X = take k X # slices ks (drop k X)"

text \<open>
  A decoder given chunks one after the other; \<open>None\<close> when a \<open>decompress\<close> raises,
  else the decoder reached and the outputs put together.
\<close>

fun feed :: "'d zlib \<Rightarrow> 'd \<Rightarrow> bytes list \<Rightarrow> ('d \<times> bytes) option" where
  "feed Z d [] = Some (d, [])"
| "feed Z d (c # cs) =
     (case decompress Z d c of
        (d', None) \<Rightarrow> None
      | (d', Some out) \<Rightarrow>
          (case feed Z d' cs of None \<Rightarrow> None | Some (d'', outs) \<Rightarrow> Some (d'', out @ outs)))"

text \<open>
  What it means for the decompression object to decode the members \<open>M\<close>, where
  \<open>M m p\<close> says that the bytes \<open>m\<close> are one complete gzip member with decompressed
  output \<open>p\<close>. However the input is cut into chunks: no member is empty; once a fresh
  decoder has been given a member and then some bytes \<open>t\<close>, these bytes are its
  \<open>unused_data\<close> and its outputs, flushed, are the member's output; and while it has been
  given only a proper beginning of a member it has raised nothing and has no unused data.
\<close>

definition decodes :: "'d zlib \<Rightarrow> (bytes \<Rightarrow> bytes \<Rightarrow> bool) \<Rightarrow> bool" where
  "decodes Z M \<longleftrightarrow>
     (\<forall>m p. M m p \<longrightarrow> m \<noteq> []) \<and>
     (\<forall>cs m p t. M m p \<longrightarrow> concat cs = m @ t \<longrightarrow>
        (\<exists>d outs. feed Z (decompressobj Z) cs = Some (d, outs) \<and>
           unused_data Z d = t \<and> outs @ snd (flush Z d) = p)) \<and>
     (\<forall>cs m p t. M m p \<longrightarrow> t \<noteq> [] \<longrightarrow> concat cs @ t = m \<longrightarrow>
        (\<exists>d outs. feed Z (decompressobj Z) cs = Some (d, outs) \<and> unused_data Z d = []))"

text \<open>
  The members of the miniature format: a payload without brackets, between brackets.
\<close>

definition plain :: "bytes \<Rightarrow> bool" where
  "plain p \<longleftrightarrow> CHR ''<'' \<notin> set p \<and> CHR ''>'' \<notin> set p"

definition bracket_member :: "bytes \<Rightarrow> bytes \<Rightarrow> bool" where
  "bracket_member m p \<longleftrightarrow> m = CHR ''<'' # p @ ''>'' \<and> plain p"

section \<open>Properties\<close>

subsection \<open>The miniature decoder, and the fields a refill leaves alone\<close>

lemmas bc_defs = buffer_chunk_def next_input_def from_stream_def stream_read_def
  out_of_input_def absorb_def

lemma bracket_run_unused_le: "length (fst (snd (bracket_run p c))) \<le> length c"
  by (induction p c rule: bracket_run.induct) (auto split: prod.splits option.splits)

lemma bracket_run_header_lt:
  "c \<noteq> [] \<Longrightarrow> length (fst (snd (bracket_run Header c))) < length c"
proof (cases c)
  case Nil
  assume "c \<noteq> []"
  with Nil show ?thesis by simp
next
  case (Cons x xs)
  show ?thesis using bracket_run_unused_le [of Body xs] Cons by simp
qed

lemma bracket_run_error: "snd (snd (bracket_run p c)) = None \<Longrightarrow> fst (snd (bracket_run p c)) = []"
  by (induction p c rule: bracket_run.induct) (auto split: prod.splits option.splits if_splits)

lemma bracket_wf: "codec_wf bracket"
proof -
  have 1: "unused_data bracket (decompressobj bracket) = []" by (simp add: bracket_def)
  have 2: "unused_data bracket (fst (flush bracket d)) = unused_data bracket d" for d
    by (simp add: bracket_def)
  have 3: "unused_data bracket (fst (decompress bracket (decompressobj bracket) c)) = []"
    if "snd (decompress bracket (decompressobj bracket) c) = None" for c
    using that bracket_run_error [of Header c]
    by (simp add: bracket_def bracket_decompress_def case_prod_beta)
  have 4: "length (unused_data bracket (fst (decompress bracket (decompressobj bracket) c))) < length c"
    if "c \<noteq> []" for c
    using that bracket_run_header_lt [of c]
    by (simp add: bracket_def bracket_decompress_def case_prod_beta)
  show ?thesis unfolding codec_wf_def using 1 2 3 4 by blast
qed

lemma next_input_fields:
  "header_read (snd (next_input Z n s)) = header_read s"
  "uncompressed_bytes (snd (next_input Z n s)) = uncompressed_bytes s"
  "compressed_bytes (snd (next_input Z n s)) + length (stream (snd (next_input Z n s)))
     = compressed_bytes s + length (stream s)"
  by (auto simp: next_input_def from_stream_def stream_read_def case_prod_beta Let_def
      split: option.splits)

lemma out_of_input_fields:
  "header_read (state_of (out_of_input Z s)) = header_read s"
  "uncompressed_bytes (state_of (out_of_input Z s)) = uncompressed_bytes s"
  "compressed_bytes (state_of (out_of_input Z s)) = compressed_bytes s"
  "stream (state_of (out_of_input Z s)) = stream s"
  by (simp_all add: out_of_input_def case_prod_beta Let_def split: option.splits)

lemma absorb_fields:
  "uncompressed_bytes (state_of (absorb Z c s)) = uncompressed_bytes s"
  "compressed_bytes (state_of (absorb Z c s)) = compressed_bytes s"
  "stream (state_of (absorb Z c s)) = stream s"
  "header_read s \<noteq> None \<Longrightarrow> header_read (state_of (absorb Z c s)) = header_read s"
  by (simp_all add: absorb_def split: option.splits bool.splits prod.splits)

lemma buffer_chunk_alt:
  "buffer_chunk Z n s =
     (if fst (next_input Z n s) = [] then out_of_input Z (snd (next_input Z n s))
      else absorb Z (fst (next_input Z n s)) (snd (next_input Z n s)))"
  by (simp add: buffer_chunk_def case_prod_beta Let_def)

lemma bc_header_read:
  "header_read s \<noteq> None \<Longrightarrow> header_read (state_of (buffer_chunk Z n s)) = header_read s"
  by (simp add: buffer_chunk_alt next_input_fields out_of_input_fields absorb_fields)

lemma bc_counted:
  "compressed_bytes (state_of (buffer_chunk Z n s)) + length (stream (state_of (buffer_chunk Z n s)))
     = compressed_bytes s + length (stream s)"
  by (simp add: buffer_chunk_alt next_input_fields out_of_input_fields absorb_fields)

lemma bc_uncompressed:
  "uncompressed_bytes (state_of (buffer_chunk Z n s)) = uncompressed_bytes s"
  by (simp add: buffer_chunk_alt next_input_fields out_of_input_fields absorb_fields)

subsection \<open>The loop of read, one refill after the other\<close>

lemma fill_step:
  "length (buffer s) < sz \<Longrightarrow> buffer_chunk Z n s = Inr (True, s') \<Longrightarrow>
     fill Z n sz s = fill Z n sz s'"
  by (subst fill.simps) simp

lemma fill_stop:
  "\<not> (length (buffer s) < sz \<and> (\<exists>s'. buffer_chunk Z n s = Inr (True, s'))) \<Longrightarrow>
     fill Z n sz s = Some r \<Longrightarrow> fill_end Z n sz s r"
  apply (subst (asm) fill.simps)
  apply (cases "buffer_chunk Z n s")
   apply (simp add: fill_end_def split: if_splits)
  apply (simp add: fill_end_def split: if_splits prod.splits)
  done

lemma fill_SomeD:
  "fill Z n sz s = Some r \<Longrightarrow> \<exists>s0. (refill Z n)\<^sup>*\<^sup>* s s0 \<and> fill_end Z n sz s0 r"
proof (rule fill.raw_induct [where P = "\<lambda>Z n sz s r. \<exists>s0. (refill Z n)\<^sup>*\<^sup>* s s0 \<and> fill_end Z n sz s0 r"])
  show "fill Z n sz s = Some r \<Longrightarrow> fill Z n sz s = Some r" .
next
  fix f :: "'a zlib \<Rightarrow> nat \<Rightarrow> nat \<Rightarrow> 'a unzip \<Rightarrow> ((error \<times> 'a unzip) + 'a unzip) option"
    and Z n sz s r
  assume IH: "\<And>Z n sz s r. f Z n sz s = Some r \<Longrightarrow>
      \<exists>s0. (refill Z n)\<^sup>*\<^sup>* s s0 \<and> fill_end Z n sz s0 r"
  assume body: "(if length (buffer s) < sz
      then case buffer_chunk Z n s of Inl e \<Rightarrow> Some (Inl e)
           | Inr (got, s') \<Rightarrow> if got then f Z n sz s' else Some (Inr s')
      else Some (Inr s)) = Some r"
  show "\<exists>s0. (refill Z n)\<^sup>*\<^sup>* s s0 \<and> fill_end Z n sz s0 r"
  proof (cases "length (buffer s) < sz \<and> (\<exists>s'. buffer_chunk Z n s = Inr (True, s'))")
    case True
    then obtain s' where s': "buffer_chunk Z n s = Inr (True, s')" and lt: "length (buffer s) < sz"
      by blast
    from body have "f Z n sz s' = Some r" by (simp add: s' lt)
    from IH [OF this] obtain s0 where
      s0: "(refill Z n)\<^sup>*\<^sup>* s' s0" "fill_end Z n sz s0 r" by blast
    have "refill Z n s s'" using s' by (simp add: refill_def)
    from this s0(1) have "(refill Z n)\<^sup>*\<^sup>* s s0" by (rule converse_rtranclp_into_rtranclp)
    with s0(2) show ?thesis by blast
  next
    case False
    have "fill_end Z n sz s r"
    proof (cases "buffer_chunk Z n s")
      case (Inl e)
      with body show ?thesis by (simp add: fill_end_def split: if_splits)
    next
      case (Inr p)
      with body False show ?thesis
        by (cases p) (simp add: fill_end_def split: if_splits)
    qed
    then show ?thesis by blast
  qed
qed

subsection \<open>A refill does not look at the buffer\<close>

lemma next_input_frame:
  "next_input Z n (s\<lparr>buffer := b, uncompressed_bytes := u\<rparr>) =
     (fst (next_input Z n s), relay b u s (snd (next_input Z n s)))"
  by (simp add: next_input_def from_stream_def stream_read_def relay_def case_prod_beta Let_def
      split: option.splits)

lemma out_of_input_frame:
  "out_of_input Z (s\<lparr>buffer := b, uncompressed_bytes := u\<rparr>) =
     relay_outcome b u s (out_of_input Z s)"
  by (simp add: out_of_input_def relay_def case_prod_beta Let_def split: option.splits)

lemma absorb_frame:
  "absorb Z c (s\<lparr>buffer := b, uncompressed_bytes := u\<rparr>) =
     relay_outcome b u s (absorb Z c s)"
  by (simp add: absorb_def relay_def split: option.splits bool.splits prod.splits)

lemma extends_refl: "extends s s"
  by (simp add: extends_def)

lemma extends_trans: "extends s s1 \<Longrightarrow> extends s1 s2 \<Longrightarrow> extends s s2"
  by (auto simp: extends_def)

lemma next_input_extends: "extends s (snd (next_input Z n s))"
  by (simp add: extends_def next_input_def from_stream_def stream_read_def case_prod_beta
      Let_def split: option.splits)

lemma out_of_input_extends: "extends s (state_of (out_of_input Z s))"
  by (simp add: extends_def out_of_input_def case_prod_beta Let_def split: option.splits)

lemma absorb_extends: "extends s (state_of (absorb Z c s))"
  by (simp add: extends_def absorb_def split: option.splits bool.splits prod.splits)

lemma buffer_chunk_extends: "extends s (state_of (buffer_chunk Z n s))"
  by (simp add: buffer_chunk_alt extends_trans [OF next_input_extends out_of_input_extends]
      extends_trans [OF next_input_extends absorb_extends])

lemma relay_compose:
  assumes "extends s s1" "extends s1 s2"
  shows "relay (b @ drop (length (buffer s)) (buffer s1)) u s1 s2 = relay b u s s2"
proof -
  from assms obtain a a' where "buffer s1 = buffer s @ a" "buffer s2 = buffer s1 @ a'"
    by (auto simp: extends_def)
  then show ?thesis by (simp add: relay_def)
qed

lemma relay_outcome_compose:
  assumes "extends s s1" "extends s1 (state_of r)"
  shows "relay_outcome (b @ drop (length (buffer s)) (buffer s1)) u s1 r = relay_outcome b u s r"
proof (cases r)
  case (Inl p)
  with assms show ?thesis by (cases p) (simp add: relay_compose)
next
  case (Inr p)
  with assms show ?thesis by (cases p) (simp add: relay_compose)
qed

lemma bc_frame:
  "buffer_chunk Z n (s\<lparr>buffer := b, uncompressed_bytes := u\<rparr>) =
     relay_outcome b u s (buffer_chunk Z n s)"
proof -
  let ?s1 = "snd (next_input Z n s)"
  let ?b1 = "b @ drop (length (buffer s)) (buffer ?s1)"
  have r: "relay b u s ?s1 = ?s1\<lparr>buffer := ?b1, uncompressed_bytes := u\<rparr>"
    by (simp add: relay_def)
  show ?thesis
  proof (cases "fst (next_input Z n s) = []")
    case True
    have "relay_outcome ?b1 u ?s1 (out_of_input Z ?s1) = relay_outcome b u s (out_of_input Z ?s1)"
      by (rule relay_outcome_compose [OF next_input_extends out_of_input_extends])
    with True show ?thesis
      by (simp add: buffer_chunk_alt next_input_frame r out_of_input_frame)
  next
    case False
    have "relay_outcome ?b1 u ?s1 (absorb Z (fst (next_input Z n s)) ?s1)
            = relay_outcome b u s (absorb Z (fst (next_input Z n s)) ?s1)"
      by (rule relay_outcome_compose [OF next_input_extends absorb_extends])
    with False show ?thesis
      by (simp add: buffer_chunk_alt next_input_frame r absorb_frame)
  qed
qed

subsection \<open>What an object has yet to deliver\<close>

lemma exhausts_deterministic:
  "exhausts Z n s a \<Longrightarrow> exhausts Z n s b \<Longrightarrow> a = b"
proof (induction arbitrary: b rule: exhausts.induct)
  case (stop s s')
  from stop(2) stop(1) show ?case by (cases rule: exhausts.cases) auto
next
  case (step s s' out)
  from step(4) step(1) have "exhausts Z n s' b" by (cases rule: exhausts.cases) auto
  then show ?case by (rule step.IH)
qed

lemma exhausts_extends: "exhausts Z n s X \<Longrightarrow> \<exists>Y. X = buffer s @ Y"
proof (induction rule: exhausts.induct)
  case (stop s s')
  with buffer_chunk_extends [of s Z n] show ?case by (auto simp: extends_def)
next
  case (step s s' out)
  with buffer_chunk_extends [of s Z n] show ?case by (auto simp: extends_def)
qed

lemma exhausts_refills:
  "(refill Z n)\<^sup>*\<^sup>* s s0 \<Longrightarrow> exhausts Z n s0 X \<Longrightarrow> exhausts Z n s X"
  by (induction rule: converse_rtranclp_induct) (auto simp: refill_def intro: exhausts.step)

lemma exhausts_frame:
  "exhausts Z n s X \<Longrightarrow>
     exhausts Z n (s\<lparr>buffer := b, uncompressed_bytes := u\<rparr>) (b @ drop (length (buffer s)) X)"
proof (induction arbitrary: b rule: exhausts.induct)
  case (stop s s')
  have "buffer_chunk Z n (s\<lparr>buffer := b, uncompressed_bytes := u\<rparr>) = Inr (False, relay b u s s')"
    by (simp add: bc_frame stop)
  from exhausts.stop [OF this] show ?case by (simp add: relay_def)
next
  case (step s s' out)
  let ?b' = "b @ drop (length (buffer s)) (buffer s')"
  have bc: "buffer_chunk Z n (s\<lparr>buffer := b, uncompressed_bytes := u\<rparr>) = Inr (True, relay b u s s')"
    by (simp add: bc_frame step)
  from buffer_chunk_extends [of s Z n] step(1) obtain a where a: "buffer s' = buffer s @ a"
    by (auto simp: extends_def)
  from exhausts_extends [OF step(2)] obtain Y where Y: "out = buffer s' @ Y" by blast
  have "exhausts Z n (s'\<lparr>buffer := ?b', uncompressed_bytes := u\<rparr>) (?b' @ drop (length (buffer s')) out)"
    by (rule step.IH)
  then have "exhausts Z n (relay b u s s') (b @ drop (length (buffer s)) out)"
    by (simp add: relay_def a Y)
  with bc show ?case by (rule exhausts.step)
qed

subsection \<open>Every loop ends\<close>

lemma codec_wf_flush: "codec_wf Z \<Longrightarrow> unused_data Z (fst (flush Z d)) = unused_data Z d"
  by (simp add: codec_wf_def)

lemma take_Nil_drop: "take n xs = [] \<Longrightarrow> drop n xs = xs"
  by (cases n) auto

lemma next_input_empty:
  assumes "codec_wf Z" "fst (next_input Z n s) = []"
  shows "snd (next_input Z n s) = s"
  using assms
  by (auto simp: next_input_def from_stream_def stream_read_def case_prod_beta Let_def
      codec_wf_flush take_Nil_drop split: option.splits if_splits)

lemma out_of_input_False: "out_of_input Z s = Inr (False, s') \<Longrightarrow> s' = s"
  by (auto simp: out_of_input_def case_prod_beta Let_def split: option.splits if_splits)

lemma absorb_not_False: "absorb Z c s \<noteq> Inr (False, s')"
  by (simp add: absorb_def split: option.splits bool.splits prod.splits)

lemma bc_False_same:
  assumes "codec_wf Z" "buffer_chunk Z n s = Inr (False, s')"
  shows "s' = s"
proof (cases "fst (next_input Z n s) = []")
  case True
  with assms(2) have "out_of_input Z (snd (next_input Z n s)) = Inr (False, s')"
    by (simp add: buffer_chunk_alt)
  then have "s' = snd (next_input Z n s)" by (rule out_of_input_False)
  with next_input_empty [OF assms(1) True] show ?thesis by simp
next
  case False
  with assms(2) show ?thesis by (simp add: buffer_chunk_alt absorb_not_False)
qed

lemma wf_remains: "wf (remains Z)"
  by (simp add: remains_def)

lemma absorb_pending:
  assumes "codec_wf Z" "c \<noteq> []" "decompressor s = Some (decompressobj Z)"
    "absorb Z c s = Inr (True, s')"
  shows "pending Z s' \<le> length c"
proof -
  let ?r = "decompress Z (decompressobj Z) c"
  from assms(1,2) have ok: "snd ?r \<noteq> None \<Longrightarrow> length (unused_data Z (fst ?r)) < length c"
    by (simp add: codec_wf_def)
  from assms(1) have bad: "snd ?r = None \<Longrightarrow> unused_data Z (fst ?r) = []"
    by (simp add: codec_wf_def)
  from assms(1) have fresh: "unused_data Z (decompressobj Z) = []"
    by (simp add: codec_wf_def)
  obtain d' out where r: "?r = (d', out)" by (cases ?r)
  show ?thesis
    using assms(2,3,4) ok bad fresh r
    by (cases out; cases "header_read s"; cases c)
       (auto simp: absorb_def pending_def split: bool.splits)
qed

lemma next_input_cases:
  obtains (recycle) d where "decompressor s = Some d" "unused_data Z d \<noteq> []"
      "fst (next_input Z n s) = unused_data Z (fst (flush Z d))"
      "snd (next_input Z n s) =
         s\<lparr>buffer := buffer s @ snd (flush Z d), decompressor := Some (decompressobj Z)\<rparr>"
  | (pull) "\<forall>d. decompressor s = Some d \<longrightarrow> unused_data Z d = []"
      "fst (next_input Z n s) = take n (stream s)"
      "snd (next_input Z n s) =
         s\<lparr>stream := drop n (stream s),
           compressed_bytes := compressed_bytes s + length (take n (stream s))\<rparr>"
proof (cases "\<exists>d. decompressor s = Some d \<and> unused_data Z d \<noteq> []")
  case True
  then obtain d where d: "decompressor s = Some d" "unused_data Z d \<noteq> []" by blast
  then show ?thesis
    by (intro recycle [of d]) (simp_all add: next_input_def case_prod_beta)
next
  case False
  then show ?thesis
    by (intro pull)
       (auto simp: next_input_def from_stream_def stream_read_def case_prod_beta Let_def
          split: option.splits)
qed

lemma out_of_input_True:
  assumes "out_of_input Z s = Inr (True, s')"
  shows "stream s' = stream s \<and> pending Z s' < pending Z s"
  using assms
  by (auto simp: out_of_input_def pending_def case_prod_beta Let_def
      split: option.splits if_splits)

lemma refill_decreases:
  assumes wf: "codec_wf Z" and r: "refill Z n s s'"
  shows "(s', s) \<in> remains Z"
proof (cases rule: next_input_cases [of s Z n])
  case (recycle d)
  let ?c = "unused_data Z d"
  let ?s1 = "snd (next_input Z n s)"
  have c: "fst (next_input Z n s) = ?c" using recycle(3) wf by (simp add: codec_wf_flush)
  with recycle(2) r have a: "absorb Z ?c ?s1 = Inr (True, s')"
    by (simp add: refill_def buffer_chunk_alt)
  have "decompressor ?s1 = Some (decompressobj Z)" by (simp add: recycle(4))
  from absorb_pending [OF wf recycle(2) this a] have "pending Z s' \<le> length ?c" .
  moreover have "pending Z s = Suc (length ?c)" by (simp add: pending_def recycle(1))
  moreover have "stream s' = stream s"
    using absorb_fields(3) [of Z ?c ?s1] a by (simp add: recycle(4))
  ultimately show ?thesis by (simp add: remains_def)
next
  case pull
  let ?s1 = "snd (next_input Z n s)"
  show ?thesis
  proof (cases "take n (stream s) = []")
    case True
    with pull(2) have e: "fst (next_input Z n s) = []" by simp
    from next_input_empty [OF wf e] have "?s1 = s" .
    with e r have "out_of_input Z s = Inr (True, s')" by (simp add: refill_def buffer_chunk_alt)
    from out_of_input_True [OF this] show ?thesis by (simp add: remains_def)
  next
    case False
    with pull(2) r have a: "absorb Z (take n (stream s)) ?s1 = Inr (True, s')"
      by (simp add: refill_def buffer_chunk_alt)
    have "stream s' = stream ?s1"
      using absorb_fields(3) [of Z "take n (stream s)" ?s1] a by simp
    then have "stream s' = drop n (stream s)" by (simp add: pull(3))
    moreover from False have "length (drop n (stream s)) < length (stream s)"
      by (cases n; cases "stream s") auto
    ultimately show ?thesis by (simp add: remains_def)
  qed
qed

lemma fill_stop_total:
  "\<not> (length (buffer s) < sz \<and> (\<exists>s'. buffer_chunk Z n s = Inr (True, s'))) \<Longrightarrow>
     \<exists>r. fill Z n sz s = Some r"
  apply (subst fill.simps)
  apply (cases "buffer_chunk Z n s")
   apply simp
  apply (auto split: prod.splits)
  done

lemma fill_terminates:
  assumes wf: "codec_wf Z"
  shows "\<exists>r. fill Z n sz s = Some r"
proof (induction s rule: wf_induct_rule [OF wf_remains [of Z]])
  case (1 s)
  show ?case
  proof (cases "length (buffer s) < sz \<and> (\<exists>s'. buffer_chunk Z n s = Inr (True, s'))")
    case True
    then obtain s' where s': "buffer_chunk Z n s = Inr (True, s')" and lt: "length (buffer s) < sz"
      by blast
    from s' have "refill Z n s s'" by (simp add: refill_def)
    from refill_decreases [OF wf this] have "\<exists>r. fill Z n sz s' = Some r" by (rule 1)
    with fill_step [OF lt s'] show ?thesis by simp
  next
    case False
    then show ?thesis by (rule fill_stop_total)
  qed
qed

lemma read_terminates: "codec_wf Z \<Longrightarrow> \<exists>r. read Z n sz s = Some r"
  using fill_terminates [of Z n sz s]
  by (auto simp: read_def split: sum.splits)

lemma scan_step:
  "room mb s \<Longrightarrow> buffer_chunk Z n s = Inr (True, s') \<Longrightarrow>
     scan Z n mb None ck s = scan Z n mb (find_newline (buffer s') ck) (length (buffer s')) s'"
  by (subst scan.simps) (simp add: room_def)

lemma scan_found: "scan Z n mb (Some i) ck s = Some (Inr (Some i, s))"
  by (subst scan.simps) simp

lemma scan_stop_total:
  "\<not> (room mb s \<and> (\<exists>s'. buffer_chunk Z n s = Inr (True, s'))) \<Longrightarrow>
     \<exists>r. scan Z n mb None ck s = Some r"
  apply (subst scan.simps)
  apply (cases "buffer_chunk Z n s")
   apply (simp add: room_def)
  apply (auto simp: room_def split: prod.splits)
  done

lemma scan_terminates:
  assumes wf: "codec_wf Z"
  shows "\<exists>r. scan Z n mb ni ck s = Some r"
proof (induction s arbitrary: ni ck rule: wf_induct_rule [OF wf_remains [of Z]])
  case (1 s)
  show ?case
  proof (cases ni)
    case (Some i)
    then show ?thesis by (simp add: scan_found)
  next
    case None
    show ?thesis
    proof (cases "room mb s \<and> (\<exists>s'. buffer_chunk Z n s = Inr (True, s'))")
      case True
      then obtain s' where s': "buffer_chunk Z n s = Inr (True, s')" and rm: "room mb s"
        by blast
      from s' have "refill Z n s s'" by (simp add: refill_def)
      from refill_decreases [OF wf this]
      have "\<exists>r. scan Z n mb (find_newline (buffer s') ck) (length (buffer s')) s' = Some r"
        by (rule 1)
      with scan_step [OF rm s'] None show ?thesis by simp
    next
      case False
      with None show ?thesis by (simp add: scan_stop_total)
    qed
  qed
qed

lemma readline_terminates:
  assumes wf: "codec_wf Z"
  shows "\<exists>r. readline Z n mb s = Some r"
proof -
  obtain r where r: "scan Z n mb (find_newline (buffer s) 0) (length (buffer s)) s = Some r"
    using scan_terminates [OF wf] by blast
  show ?thesis
  proof (cases r)
    case (Inl e)
    with r show ?thesis by (simp add: readline_def)
  next
    case (Inr p)
    obtain ni s' where p: "p = (ni, s')" by (cases p)
    from read_terminates [OF wf] Inr p r show ?thesis
      by (simp add: readline_def split: option.splits)
  qed
qed

lemma perform_terminates: "codec_wf Z \<Longrightarrow> \<exists>r. perform Z n c s = Some r"
  by (cases c) (simp_all add: read_terminates readline_terminates)

lemma run_terminates: "codec_wf Z \<Longrightarrow> \<exists>r. run Z n cs s = Some r"
proof (induction cs arbitrary: s)
  case Nil
  show ?case by simp
next
  case (Cons c cs)
  obtain r where r: "perform Z n c s = Some r" using perform_terminates [OF Cons.prems] by blast
  show ?case
  proof (cases r)
    case (Inl e)
    with r show ?thesis by simp
  next
    case (Inr p)
    obtain x s' where p: "p = (x, s')" by (cases p)
    obtain r' where "run Z n cs s' = Some r'" using Cons.IH [OF Cons.prems] by blast
    with r Inr p show ?thesis by (cases r') (auto split: prod.splits)
  qed
qed

subsection \<open>Where read stops\<close>

lemma fill_refills:
  assumes wf: "codec_wf Z" and f: "fill Z n sz s = Some (Inr s1)"
  shows "(refill Z n)\<^sup>*\<^sup>* s s1 \<and>
         (sz \<le> length (buffer s1) \<or> buffer_chunk Z n s1 = Inr (False, s1))"
proof -
  from fill_SomeD [OF f] obtain s0 where
    s0: "(refill Z n)\<^sup>*\<^sup>* s s0" and e: "fill_end Z n sz s0 (Inr s1)" by blast
  show ?thesis
  proof (cases "sz \<le> length (buffer s0)")
    case True
    with e have "s1 = s0" by (simp add: fill_end_def)
    with s0 True show ?thesis by simp
  next
    case False
    with e have "buffer_chunk Z n s0 = Inr (False, s1)"
      by (cases "buffer_chunk Z n s0") (auto simp: fill_end_def split: prod.splits)
    moreover from bc_False_same [OF wf this] have "s1 = s0" .
    ultimately show ?thesis using s0 by simp
  qed
qed

lemma fill_raises:
  assumes f: "fill Z n sz s = Some (Inl e)"
  shows "\<exists>s0. (refill Z n)\<^sup>*\<^sup>* s s0 \<and> buffer_chunk Z n s0 = Inl e"
proof -
  from fill_SomeD [OF f] obtain s0 where
    s0: "(refill Z n)\<^sup>*\<^sup>* s s0" and e: "fill_end Z n sz s0 (Inl e)" by blast
  from e have "buffer_chunk Z n s0 = Inl e"
    by (cases "buffer_chunk Z n s0") (auto simp: fill_end_def split: prod.splits if_splits)
  with s0 show ?thesis by blast
qed

lemma bc_False_stream:
  assumes wf: "codec_wf Z" and n: "0 < n" and bc: "buffer_chunk Z n s = Inr (False, s')"
  shows "stream s = []"
proof (cases rule: next_input_cases [of s Z n])
  case (recycle d)
  with wf have "fst (next_input Z n s) \<noteq> []" by (simp add: codec_wf_flush)
  with bc show ?thesis by (simp add: buffer_chunk_alt absorb_not_False)
next
  case pull
  from bc have "fst (next_input Z n s) = []"
    by (simp add: buffer_chunk_alt absorb_not_False split: if_splits)
  with pull(2) n show ?thesis by (cases n; cases "stream s") auto
qed

lemma read_Inr:
  "read Z n sz s = Some (Inr (part, s')) \<Longrightarrow>
     \<exists>s1. fill Z n sz s = Some (Inr s1) \<and> part = take sz (buffer s1) \<and>
          s' = s1\<lparr>buffer := drop sz (buffer s1),
                  uncompressed_bytes := uncompressed_bytes s1 + length part\<rparr>"
  by (auto simp: read_def pull_off_def Let_def split: option.splits sum.splits)

lemma read_short_exhausted:
  assumes wf: "codec_wf Z" and n: "0 < n"
    and r: "read Z n sz s = Some (Inr (part, s'))" and short: "length part < sz"
  shows "exhausted Z n s'"
proof -
  from read_Inr [OF r] obtain s1 where
    f: "fill Z n sz s = Some (Inr s1)" and part: "part = take sz (buffer s1)" and
    s': "s' = s1\<lparr>buffer := drop sz (buffer s1),
                  uncompressed_bytes := uncompressed_bytes s1 + length part\<rparr>" by blast
  from short part have lt: "length (buffer s1) < sz" by simp
  with fill_refills [OF wf f] have bc: "buffer_chunk Z n s1 = Inr (False, s1)" by simp
  have "buffer_chunk Z n s' = Inr (False, s')"
    unfolding s' using lt by (simp add: bc_frame bc relay_def)
  moreover from bc_False_stream [OF wf n bc] have "stream s' = []" by (simp add: s')
  moreover from lt have "buffer s' = []" by (simp add: s')
  ultimately show ?thesis by (simp add: exhausted_def)
qed

subsection \<open>The loop of readline\<close>

lemma scan_SomeD:
  "scan Z n mb ni ck s = Some r \<Longrightarrow>
     \<exists>s0 ni0. (refill Z n)\<^sup>*\<^sup>* s s0 \<and> scan_end Z n mb ni0 s0 r"
proof (rule scan.raw_induct [where P = "\<lambda>Z n mb ni ck s r.
         \<exists>s0 ni0. (refill Z n)\<^sup>*\<^sup>* s s0 \<and> scan_end Z n mb ni0 s0 r"])
  show "scan Z n mb ni ck s = Some r \<Longrightarrow> scan Z n mb ni ck s = Some r" .
next
  fix f :: "'a zlib \<Rightarrow> nat \<Rightarrow> nat option \<Rightarrow> nat option \<Rightarrow> nat \<Rightarrow> 'a unzip \<Rightarrow>
      (nat option, 'a) outcome option"
    and Z n mb ni ck s r
  assume IH: "\<And>Z n mb ni ck s r. f Z n mb ni ck s = Some r \<Longrightarrow>
      \<exists>s0 ni0. (refill Z n)\<^sup>*\<^sup>* s s0 \<and> scan_end Z n mb ni0 s0 r"
  assume body: "(if ni = None \<and>
         (case mb of None \<Rightarrow> True | Some m \<Rightarrow> length (buffer s) < m) then
        (case buffer_chunk Z n s of
           Inl e \<Rightarrow> Some (Inl e)
         | Inr (got, s') \<Rightarrow>
             if got then
               f Z n mb (find_newline (buffer s') ck) (length (buffer s')) s'
             else Some (Inr (ni, s')))
      else Some (Inr (ni, s))) = Some r"
  show "\<exists>s0 ni0. (refill Z n)\<^sup>*\<^sup>* s s0 \<and> scan_end Z n mb ni0 s0 r"
  proof (cases "ni = None \<and> room mb s \<and> (\<exists>s'. buffer_chunk Z n s = Inr (True, s'))")
    case True
    then obtain s' where s': "buffer_chunk Z n s = Inr (True, s')"
      and ni: "ni = None" and rm: "room mb s" by blast
    from body have "f Z n mb (find_newline (buffer s') ck) (length (buffer s')) s' = Some r"
      using rm by (simp add: s' ni room_def)
    from IH [OF this] obtain s0 ni0 where
      s0: "(refill Z n)\<^sup>*\<^sup>* s' s0" "scan_end Z n mb ni0 s0 r" by blast
    have "refill Z n s s'" using s' by (simp add: refill_def)
    from this s0(1) have "(refill Z n)\<^sup>*\<^sup>* s s0" by (rule converse_rtranclp_into_rtranclp)
    with s0(2) show ?thesis by blast
  next
    case False
    have "scan_end Z n mb ni s r"
    proof (cases "ni = None \<and> room mb s")
      case no: False
      with body show ?thesis by (auto simp: scan_end_def room_def split: if_splits)
    next
      case yes: True
      show ?thesis
      proof (cases "buffer_chunk Z n s")
        case (Inl e)
        with body yes show ?thesis by (auto simp: scan_end_def room_def split: if_splits)
      next
        case (Inr p)
        with body False yes show ?thesis
          by (cases p) (auto simp: scan_end_def room_def split: if_splits)
      qed
    qed
    then show ?thesis by blast
  qed
qed

subsection \<open>Invariants of the operations\<close>

lemma refills_invariant:
  assumes "(refill Z n)\<^sup>*\<^sup>* s s0" "Q s"
    and step: "\<And>s. Q s \<Longrightarrow> Q (state_of (buffer_chunk Z n s))"
  shows "Q s0"
  using assms(1,2)
proof (induction rule: rtranclp_induct)
  case base
  then show ?case .
next
  case (step y z)
  from step.IH [OF step.prems] have "Q y" .
  from assms(3) [OF this] step.hyps(2) show ?case by (simp add: refill_def)
qed

lemma fill_invariant:
  assumes f: "fill Z n sz s = Some r" and Q: "Q s"
    and step: "\<And>s. Q s \<Longrightarrow> Q (state_of (buffer_chunk Z n s))"
  shows "Q (fill_state r)"
proof -
  from fill_SomeD [OF f] obtain s0 where
    s0: "(refill Z n)\<^sup>*\<^sup>* s s0" and e: "fill_end Z n sz s0 r" by blast
  from refills_invariant [OF s0 Q step] have Q0: "Q s0" .
  show ?thesis
  proof (cases "sz \<le> length (buffer s0)")
    case True
    with e Q0 show ?thesis by (simp add: fill_end_def)
  next
    case False
    from step [OF Q0] False e show ?thesis
      by (cases "buffer_chunk Z n s0") (auto simp: fill_end_def split: prod.splits)
  qed
qed

lemma scan_invariant:
  assumes f: "scan Z n mb ni ck s = Some r" and Q: "Q s"
    and step: "\<And>s. Q s \<Longrightarrow> Q (state_of (buffer_chunk Z n s))"
  shows "Q (state_of r)"
proof -
  from scan_SomeD [OF f] obtain s0 ni0 where
    s0: "(refill Z n)\<^sup>*\<^sup>* s s0" and e: "scan_end Z n mb ni0 s0 r" by blast
  from refills_invariant [OF s0 Q step] have Q0: "Q s0" .
  show ?thesis
  proof (cases "ni0 = None \<and> room mb s0")
    case False
    with e Q0 show ?thesis by (auto simp: scan_end_def)
  next
    case True
    from step [OF Q0] True e show ?thesis
      by (cases "buffer_chunk Z n s0") (auto simp: scan_end_def split: prod.splits)
  qed
qed

lemma read_invariant:
  assumes f: "read Z n sz s = Some r" and Q: "Q s"
    and step: "\<And>s. Q s \<Longrightarrow> Q (state_of (buffer_chunk Z n s))"
    and pull: "\<And>s k. Q s \<Longrightarrow> Q (snd (pull_off k s))"
  shows "Q (state_of r)"
proof -
  obtain r0 where r0: "fill Z n sz s = Some r0" using f by (cases "fill Z n sz s") (auto simp: read_def)
  from fill_invariant [OF r0 Q step] have Q0: "Q (fill_state r0)" .
  show ?thesis
  proof (cases r0)
    case (Inl p)
    with r0 f Q0 show ?thesis by (cases p) (auto simp: read_def)
  next
    case (Inr s1)
    with r0 f have "r = Inr (pull_off sz s1)" by (simp add: read_def)
    with pull [of s1 sz] Q0 Inr show ?thesis by (cases "pull_off sz s1") simp
  qed
qed

lemma readline_invariant:
  assumes f: "readline Z n mb s = Some r" and Q: "Q s"
    and step: "\<And>s. Q s \<Longrightarrow> Q (state_of (buffer_chunk Z n s))"
    and pull: "\<And>s k. Q s \<Longrightarrow> Q (snd (pull_off k s))"
  shows "Q (state_of r)"
proof -
  obtain r0 where r0: "scan Z n mb (find_newline (buffer s) 0) (length (buffer s)) s = Some r0"
    using f by (auto simp: readline_def split: option.splits)
  from scan_invariant [OF r0 Q step] have Q0: "Q (state_of r0)" .
  show ?thesis
  proof (cases r0)
    case (Inl p)
    with r0 f Q0 show ?thesis by (cases p) (auto simp: readline_def)
  next
    case (Inr p)
    obtain ni s1 where p: "p = (ni, s1)" by (cases p)
    with Inr Q0 have Q1: "Q s1" by simp
    from r0 f Inr p obtain k where "read Z n k s1 = Some r"
      by (auto simp: readline_def split: option.splits)
    from read_invariant [OF this Q1 step pull] show ?thesis .
  qed
qed

lemma next_line_invariant:
  assumes f: "next_line Z n s = Some r" and Q: "Q s"
    and step: "\<And>s. Q s \<Longrightarrow> Q (state_of (buffer_chunk Z n s))"
    and pull: "\<And>s k. Q s \<Longrightarrow> Q (snd (pull_off k s))"
  shows "Q (state_of r)"
proof -
  obtain r0 where r0: "readline Z n None s = Some r0"
    using f by (auto simp: next_line_def split: option.splits)
  from readline_invariant [OF r0 Q step pull] have "Q (state_of r0)" .
  with f r0 show ?thesis
    by (auto simp: next_line_def split: sum.splits prod.splits if_splits)
qed

lemma run_invariant:
  assumes f: "run Z n cs s = Some r" and Q: "Q s"
    and step: "\<And>s. Q s \<Longrightarrow> Q (state_of (buffer_chunk Z n s))"
    and pull: "\<And>s k. Q s \<Longrightarrow> Q (snd (pull_off k s))"
  shows "Q (state_of r)"
  using f Q
proof (induction cs arbitrary: s r)
  case Nil
  then show ?case by auto
next
  case (Cons c cs)
  obtain r0 where r0: "perform Z n c s = Some r0"
    using Cons.prems(1) by (auto split: option.splits)
  have Q0: "Q (state_of r0)"
  proof (cases c)
    case (Read k)
    with r0 read_invariant [OF _ Cons.prems(2) step pull] show ?thesis by simp
  next
    case (Readline mb)
    with r0 readline_invariant [OF _ Cons.prems(2) step pull] show ?thesis by simp
  qed
  show ?case
  proof (cases r0)
    case (Inl p)
    with r0 Cons.prems(1) Q0 show ?thesis by (cases p) auto
  next
    case (Inr p)
    obtain x s1 where p: "p = (x, s1)" by (cases p)
    with Inr Q0 have Q1: "Q s1" by simp
    obtain r1 where r1: "run Z n cs s1 = Some r1"
      using Cons.prems(1) r0 Inr p by (auto split: option.splits)
    from Cons.IH [OF r1 Q1] have "Q (state_of r1)" .
    with Cons.prems(1) r0 Inr p r1 show ?thesis
      by (auto split: sum.splits prod.splits)
  qed
qed

subsection \<open>The counters\<close>

lemmas eval_defs = read_def fill.simps init_def buffer_chunk_def next_input_def from_stream_def
  stream_read_def CHUNK_def bracket_def absorb_def out_of_input_def bracket_decompress_def
  pull_off_def readline_def scan.simps find_newline_def exhausted_def

lemma pull_off_fields:
  "stream (snd (pull_off k s)) = stream s"
  "decompressor (snd (pull_off k s)) = decompressor s"
  "header_read (snd (pull_off k s)) = header_read s"
  "compressed_bytes (snd (pull_off k s)) = compressed_bytes s"
  by (simp_all add: pull_off_def Let_def)

lemma bc_header_keeps:
  "header_read s = Some h \<Longrightarrow> header_read (state_of (buffer_chunk Z n s)) = Some h"
  using bc_header_read [of s Z n] by simp

lemma absorb_decides:
  "header_read s = None \<Longrightarrow> decompressor s = Some d \<Longrightarrow>
     header_read (state_of (absorb Z c s)) = Some (snd (decompress Z d c) \<noteq> None)"
  by (cases "decompress Z d c"; cases "snd (decompress Z d c)") (auto simp: absorb_def)

lemma fill_uncompressed:
  assumes "fill Z n sz s = Some r"
  shows "uncompressed_bytes (fill_state r) = uncompressed_bytes s"
  using fill_invariant [OF assms, where Q = "\<lambda>t. uncompressed_bytes t = uncompressed_bytes s"]
  by (simp add: bc_uncompressed)

lemma read_uncompressed:
  assumes "read Z n sz s = Some (Inr (part, s'))"
  shows "uncompressed_bytes s' = uncompressed_bytes s + length part"
proof -
  from read_Inr [OF assms] obtain s1 where
    f: "fill Z n sz s = Some (Inr s1)" and part: "part = take sz (buffer s1)" and
    s': "s' = s1\<lparr>buffer := drop sz (buffer s1),
                  uncompressed_bytes := uncompressed_bytes s1 + length part\<rparr>" by blast
  from fill_uncompressed [OF f] show ?thesis by (simp add: s')
qed

lemma scan_uncompressed:
  assumes "scan Z n mb ni ck s = Some r"
  shows "uncompressed_bytes (state_of r) = uncompressed_bytes s"
  using scan_invariant [OF assms, where Q = "\<lambda>t. uncompressed_bytes t = uncompressed_bytes s"]
  by (simp add: bc_uncompressed)

lemma readline_uncompressed:
  assumes "readline Z n mb s = Some (Inr (line, s'))"
  shows "uncompressed_bytes s' = uncompressed_bytes s + length line"
proof -
  from assms obtain ni s1 k where
    sc: "scan Z n mb (find_newline (buffer s) 0) (length (buffer s)) s = Some (Inr (ni, s1))"
    and rd: "read Z n k s1 = Some (Inr (line, s'))"
    by (auto simp: readline_def split: option.splits sum.splits)
  from scan_uncompressed [OF sc] read_uncompressed [OF rd] show ?thesis by simp
qed

lemma run_uncompressed:
  "run Z n cs s = Some (Inr (xs, s')) \<Longrightarrow>
     uncompressed_bytes s' = uncompressed_bytes s + length (concat xs)"
proof (induction cs arbitrary: s xs)
  case Nil
  then show ?case by simp
next
  case (Cons c cs)
  from Cons.prems obtain x s1 ys where
    p: "perform Z n c s = Some (Inr (x, s1))" and r: "run Z n cs s1 = Some (Inr (ys, s'))"
    and xs: "xs = x # ys"
    by (auto split: option.splits sum.splits prod.splits)
  have "uncompressed_bytes s1 = uncompressed_bytes s + length x"
    using p by (cases c) (simp_all add: read_uncompressed readline_uncompressed)
  with Cons.IH [OF r] xs show ?case by simp
qed

lemma run_counted:
  assumes "run Z n cs s = Some r"
  shows "compressed_bytes (state_of r) + length (stream (state_of r))
           = compressed_bytes s + length (stream s)"
  using run_invariant [OF assms, where
      Q = "\<lambda>t. compressed_bytes t + length (stream t) = compressed_bytes s + length (stream s)"]
  by (simp add: bc_counted pull_off_fields)

subsection \<open>read, readline, the flag and the counters\<close>

text \<open>
  C1, as stated: a call \<open>read(size)\<close> with \<open>size \<ge> 0\<close> returns the empty string only when
  the stream is fully exhausted. That fails at \<open>size = 0\<close>: on a new object over the three
  bytes \<open>abc\<close> the call returns the empty string, and the stream still holds them.
\<close>

theorem read_zero_empty_before_end:
  "read bracket CHUNK 0 (init bracket ''abc'') = Some (Inr ([], init bracket ''abc'')) \<and>
   stream (init bracket ''abc'') = ''abc'' \<and>
   \<not> exhausted bracket CHUNK (init bracket ''abc'')"
  by (simp add: eval_defs)

text \<open>
  C1, amended: with a decoder that meets \<open>codec_wf\<close> and a chunk size that is not zero,
  every call \<open>read(size)\<close> returns or raises; when it returns, the result has at most
  \<open>size\<close> bytes, it has fewer than \<open>size\<close> bytes only when the object is exhausted (stream
  and buffer empty, and \<open>buffer_chunk\<close> reporting no more data), and for \<open>size > 0\<close> it is
  empty only when the object is exhausted.
\<close>

theorem read_at_most_size_short_only_at_end:
  assumes "codec_wf Z" and "0 < n"
  shows "\<exists>r. read Z n sz s = Some r \<and>
           (\<forall>part s'. r = Inr (part, s') \<longrightarrow>
              length part \<le> sz \<and>
              (length part < sz \<longrightarrow> exhausted Z n s') \<and>
              (part = [] \<and> 0 < sz \<longrightarrow> exhausted Z n s'))"
proof -
  from read_terminates [OF assms(1)] obtain r where r: "read Z n sz s = Some r" by blast
  have "length part \<le> sz \<and> (length part < sz \<longrightarrow> exhausted Z n s') \<and>
        (part = [] \<and> 0 < sz \<longrightarrow> exhausted Z n s')" if "r = Inr (part, s')" for part s'
  proof -
    from that r have rd: "read Z n sz s = Some (Inr (part, s'))" by simp
    from read_Inr [OF rd] have "length part \<le> sz" by auto
    moreover have "exhausted Z n s'" if "length part < sz"
      using read_short_exhausted [OF assms rd that] .
    ultimately show ?thesis by auto
  qed
  with r show ?thesis by blast
qed

theorem read_at_most_size_short_only_at_end_witness:
  "codec_wf bracket \<and> 0 < CHUNK \<and>
   read bracket CHUNK 5 (init bracket ''abc'') =
     Some (Inr (''abc'',
       \<lparr>stream = [], decompressor = Some (Broken, []), header_read = Some False,
        buffer = [], compressed_bytes = 3, uncompressed_bytes = 3\<rparr>)) \<and>
   exhausted bracket CHUNK
       \<lparr>stream = [], decompressor = Some (Broken, []), header_read = Some False,
        buffer = [], compressed_bytes = 3, uncompressed_bytes = 3\<rparr>"
proof -
  have n: "0 < CHUNK" by (simp add: CHUNK_def)
  have rd: "read bracket CHUNK 5 (init bracket ''abc'') =
     Some (Inr (''abc'',
       \<lparr>stream = [], decompressor = Some (Broken, []), header_read = Some False,
        buffer = [], compressed_bytes = 3, uncompressed_bytes = 3\<rparr>))"
    by (simp add: eval_defs)
  from read_at_most_size_short_only_at_end [OF bracket_wf n, of 5 "init bracket ''abc''"] rd
  have "exhausted bracket CHUNK
       \<lparr>stream = [], decompressor = Some (Broken, []), header_read = Some False,
        buffer = [], compressed_bytes = 3, uncompressed_bytes = 3\<rparr>"
    by simp
  with bracket_wf n rd show ?thesis by simp
qed

text \<open>
  C2: \<open>readline(max_bytes)\<close> is documented not to return more than \<open>max_bytes\<close> bytes.
  Here the stream holds ten letters and a newline, not compressed, and \<open>max_bytes\<close> is 3:
  the first chunk brings the whole line into the buffer, the newline is found at index 10,
  and line 221 reads through it, eleven bytes.
\<close>

theorem readline_returns_more_than_max_bytes:
  "readline bracket CHUNK (Some 3) (init bracket (''aaaaaaaaaa'' @ [CHR 0x0A])) =
     Some (Inr (''aaaaaaaaaa'' @ [CHR 0x0A],
       \<lparr>stream = [], decompressor = Some (Broken, []), header_read = Some False,
        buffer = [], compressed_bytes = 11, uncompressed_bytes = 11\<rparr>)) \<and>
   length (''aaaaaaaaaa'' @ [CHR 0x0A]) = 11"
  by (simp add: eval_defs)

text \<open>
  C6: \<open>header_read\<close> starts as \<open>None\<close>; the first input that reaches the decoder sets
  it, to \<open>True\<close> when the decoder accepts it and to \<open>False\<close> when it raises; and once it
  is set, no operation changes it, whether the operation returns or raises:
  \<open>buffer_chunk\<close> (also when it recycles the unused data of a finished member), \<open>read\<close>,
  \<open>readline\<close>, \<open>next\<close>, \<open>__iter__\<close> and \<open>start_stats\<close>.
\<close>

theorem header_read_set_once:
  "header_read (init Z data) = None \<and>
   (header_read s = None \<longrightarrow> decompressor s = Some d \<longrightarrow>
      header_read (state_of (absorb Z c s)) = Some (snd (decompress Z d c) \<noteq> None)) \<and>
   (header_read s \<noteq> None \<longrightarrow>
      header_read (state_of (buffer_chunk Z n s)) = header_read s \<and>
      (\<forall>r. read Z n sz s = Some r \<longrightarrow> header_read (state_of r) = header_read s) \<and>
      (\<forall>r. readline Z n mb s = Some r \<longrightarrow> header_read (state_of r) = header_read s) \<and>
      (\<forall>r. next_line Z n s = Some r \<longrightarrow> header_read (state_of r) = header_read s) \<and>
      header_read (iter s) = header_read s \<and>
      header_read (start_stats s) = header_read s)"
proof -
  have rd: "header_read (state_of r) = header_read s"
    if "header_read s \<noteq> None" "read Z n sz s = Some r" for r
    using read_invariant [OF that(2), where Q = "\<lambda>t. header_read t = header_read s"] that(1)
    by (simp add: bc_header_read pull_off_fields)
  have rl: "header_read (state_of r) = header_read s"
    if "header_read s \<noteq> None" "readline Z n mb s = Some r" for r
    using readline_invariant [OF that(2), where Q = "\<lambda>t. header_read t = header_read s"] that(1)
    by (simp add: bc_header_read pull_off_fields)
  have nx: "header_read (state_of r) = header_read s"
    if "header_read s \<noteq> None" "next_line Z n s = Some r" for r
    using next_line_invariant [OF that(2), where Q = "\<lambda>t. header_read t = header_read s"] that(1)
    by (simp add: bc_header_read pull_off_fields)
  have i: "header_read (init Z data) = None" by (simp add: init_def)
  have st: "header_read (iter s) = header_read s" "header_read (start_stats s) = header_read s"
    by (simp_all add: iter_def start_stats_def)
  from i absorb_decides [of s d Z c] bc_header_read [of s Z n] rd rl nx st
  show ?thesis by blast
qed

theorem header_read_set_once_witness:
  "header_read (init bracket ''<foo><bar>'') = None \<and>
   header_read (state_of (buffer_chunk bracket 6 (init bracket ''<foo><bar>''))) = Some True \<and>
   unused_data bracket
     (the (decompressor (state_of (buffer_chunk bracket 6 (init bracket ''<foo><bar>''))))) = ''<'' \<and>
   header_read (state_of (buffer_chunk bracket 6
     (state_of (buffer_chunk bracket 6 (init bracket ''<foo><bar>''))))) = Some True"
  using header_read_set_once [of bracket "''<foo><bar>''"
      "state_of (buffer_chunk bracket 6 (init bracket ''<foo><bar>''))" "(Header, [])" "[]" 6 0 None]
  by (simp add: eval_defs)

text \<open>
  C9: \<open>start_stats\<close> sets both counters to zero and leaves the stream, the decoder, the
  flag and the buffer as they were; \<open>get_stats\<close> returns the two counters, both zero right
  after \<open>start_stats\<close>; and after any sequence of \<open>read\<close> and \<open>readline\<close> calls that
  follows a \<open>start_stats\<close>, the pair is the number of bytes taken from the stream by these
  calls and the number of bytes they returned.
\<close>

theorem stats_reset_and_snapshot:
  "stream (start_stats s) = stream s \<and>
   decompressor (start_stats s) = decompressor s \<and>
   header_read (start_stats s) = header_read s \<and>
   buffer (start_stats s) = buffer s \<and>
   compressed_bytes (start_stats s) = 0 \<and>
   uncompressed_bytes (start_stats s) = 0 \<and>
   get_stats s = (compressed_bytes s, uncompressed_bytes s) \<and>
   get_stats (start_stats s) = (0, 0) \<and>
   (\<forall>xs s'. run Z n cs (start_stats s) = Some (Inr (xs, s')) \<longrightarrow>
      get_stats s' = (length (stream s) - length (stream s'), length (concat xs)))"
proof -
  have "get_stats s' = (length (stream s) - length (stream s'), length (concat xs))"
    if r: "run Z n cs (start_stats s) = Some (Inr (xs, s'))" for xs s'
    using run_counted [OF r] run_uncompressed [OF r]
    by (simp add: get_stats_def start_stats_def)
  then show ?thesis by (simp add: start_stats_def get_stats_def)
qed

theorem stats_reset_and_snapshot_witness:
  "run bracket 4 [Read 2, Readline None]
     (start_stats (state_of (buffer_chunk bracket 4 (init bracket ''<foo><bar>'')))) =
     Some (Inr ([''fo'', ''obar''],
       \<lparr>stream = [], decompressor = None, header_read = Some True,
        buffer = [], compressed_bytes = 6, uncompressed_bytes = 6\<rparr>)) \<and>
   get_stats \<lparr>stream = [], decompressor = (None :: (phase \<times> bytes) option), header_read = Some True,
        buffer = [], compressed_bytes = 6, uncompressed_bytes = 6\<rparr>
     = (length ''><bar>'' - length ([] :: bytes), length (concat [''fo'', ''obar'']))"
proof -
  have r: "run bracket 4 [Read 2, Readline None]
     (start_stats (state_of (buffer_chunk bracket 4 (init bracket ''<foo><bar>'')))) =
     Some (Inr ([''fo'', ''obar''],
       \<lparr>stream = [], decompressor = None, header_read = Some True,
        buffer = [], compressed_bytes = 6, uncompressed_bytes = 6\<rparr>))"
    by (simp add: eval_defs start_stats_def)
  have s: "stream (state_of (buffer_chunk bracket 4 (init bracket ''<foo><bar>''))) = ''><bar>''"
    by (simp add: eval_defs)
  have "\<forall>xs s'. run bracket 4 [Read 2, Readline None]
          (start_stats (state_of (buffer_chunk bracket 4 (init bracket ''<foo><bar>'')))) =
          Some (Inr (xs, s')) \<longrightarrow>
        get_stats s' =
          (length (stream (state_of (buffer_chunk bracket 4 (init bracket ''<foo><bar>''))))
             - length (stream s'), length (concat xs))"
    using stats_reset_and_snapshot
      [of "state_of (buffer_chunk bracket 4 (init bracket ''<foo><bar>''))" bracket 4
        "[Read 2, Readline None]"] by blast
  from this [rule_format, OF r] have "get_stats \<lparr>stream = [], decompressor = (None :: (phase \<times> bytes) option),
        header_read = Some True, buffer = [], compressed_bytes = 6, uncompressed_bytes = 6\<rparr>
     = (length ''><bar>'' - length ([] :: bytes), length (concat [''fo'', ''obar'']))"
    by (simp only: s unzip.simps)
  with r show ?thesis by blast
qed

text \<open>
  C10: one call of \<open>buffer_chunk\<close>, however it ends, adds to \<open>compressed_bytes\<close> exactly
  the number of bytes it takes from the stream. When it recycles the unused data of a
  finished decoder it takes nothing from the stream and leaves the counter alone;
  otherwise it takes one chunk and adds its length. So over any sequence of calls the
  counter grows by the number of bytes that left the stream.
\<close>

theorem compressed_bytes_counts_stream_bytes_once:
  "compressed_bytes (state_of (buffer_chunk Z n s)) + length (stream (state_of (buffer_chunk Z n s)))
     = compressed_bytes s + length (stream s) \<and>
   (decompressor s = Some d \<and> unused_data Z d \<noteq> [] \<longrightarrow>
      stream (state_of (buffer_chunk Z n s)) = stream s \<and>
      compressed_bytes (state_of (buffer_chunk Z n s)) = compressed_bytes s) \<and>
   ((\<forall>d. decompressor s = Some d \<longrightarrow> unused_data Z d = []) \<longrightarrow>
      stream (state_of (buffer_chunk Z n s)) = drop n (stream s) \<and>
      compressed_bytes (state_of (buffer_chunk Z n s))
        = compressed_bytes s + length (take n (stream s))) \<and>
   (\<forall>r. run Z n cs s = Some r \<longrightarrow>
      compressed_bytes (state_of r) + length (stream (state_of r))
        = compressed_bytes s + length (stream s))"
proof -
  let ?s1 = "snd (next_input Z n s)"
  have after: "stream (state_of (buffer_chunk Z n s)) = stream ?s1 \<and>
      compressed_bytes (state_of (buffer_chunk Z n s)) = compressed_bytes ?s1"
    by (simp add: buffer_chunk_alt out_of_input_fields absorb_fields)
  have rec: "stream ?s1 = stream s \<and> compressed_bytes ?s1 = compressed_bytes s"
    if "decompressor s = Some d \<and> unused_data Z d \<noteq> []"
    using that by (cases rule: next_input_cases [of s Z n]) auto
  have pull: "stream ?s1 = drop n (stream s) \<and>
      compressed_bytes ?s1 = compressed_bytes s + length (take n (stream s))"
    if "\<forall>d. decompressor s = Some d \<longrightarrow> unused_data Z d = []"
    using that by (cases rule: next_input_cases [of s Z n]) auto
  from after rec pull bc_counted [of Z n s] run_counted [of Z n cs s]
  show ?thesis by simp
qed

theorem compressed_bytes_counts_stream_bytes_once_witness:
  "decompressor (state_of (buffer_chunk bracket 6 (init bracket ''<foo><bar>''))) = Some (Done, ''<'') \<and>
   compressed_bytes (state_of (buffer_chunk bracket 6 (init bracket ''<foo><bar>''))) = 6 \<and>
   stream (state_of (buffer_chunk bracket 6 (init bracket ''<foo><bar>''))) = ''bar>'' \<and>
   compressed_bytes (state_of (buffer_chunk bracket 6
     (state_of (buffer_chunk bracket 6 (init bracket ''<foo><bar>''))))) = 6 \<and>
   stream (state_of (buffer_chunk bracket 6
     (state_of (buffer_chunk bracket 6 (init bracket ''<foo><bar>''))))) = ''bar>''"
  using compressed_bytes_counts_stream_bytes_once
    [of bracket 6 "state_of (buffer_chunk bracket 6 (init bracket ''<foo><bar>''))"
      "(Done, ''<'')" "[]"]
  by (simp add: eval_defs)

text \<open>
  C8: \<open>read(0)\<close> returns the empty string and leaves every field of the object as it
  was, the stream, the buffer, the decoder, the flag and both counters; no chunk is
  pulled from the stream.
\<close>

theorem read_zero_noop: "read Z n 0 s = Some (Inr ([], s))"
  by (simp add: read_def fill.simps pull_off_def)

subsection \<open>Calls, and the content still to come\<close>

lemma pull_off_restore:
  "(snd (pull_off k s))\<lparr>buffer := buffer s, uncompressed_bytes := uncompressed_bytes s\<rparr> = s"
  by (simp add: pull_off_def Let_def)

lemma read_Inr_pull:
  "read Z n sz s = Some (Inr (part, s')) \<Longrightarrow>
     \<exists>s1. fill Z n sz s = Some (Inr s1) \<and> (part, s') = pull_off sz s1"
  by (auto simp: read_def split: option.splits sum.splits)

lemma exhausts_before_pull_off:
  assumes "exhausts Z n (snd (pull_off k s)) out"
  shows "exhausts Z n s (fst (pull_off k s) @ out)"
proof -
  let ?s' = "snd (pull_off k s)"
  from exhausts_extends [OF assms] obtain Y where Y: "out = buffer ?s' @ Y" by blast
  from exhausts_frame [OF assms, where b = "buffer s" and u = "uncompressed_bytes s"]
  have "exhausts Z n s (buffer s @ drop (length (buffer ?s')) out)"
    by (simp add: pull_off_restore)
  moreover have "buffer s @ drop (length (buffer ?s')) out = fst (pull_off k s) @ out"
    by (simp add: Y) (simp add: pull_off_def Let_def)
  ultimately show ?thesis by simp
qed

lemma read_back:
  assumes wf: "codec_wf Z" and r: "read Z n sz s = Some (Inr (part, s'))"
    and e: "exhausts Z n s' out"
  shows "exhausts Z n s (part @ out)"
proof -
  from read_Inr_pull [OF r] obtain s1 where
    f: "fill Z n sz s = Some (Inr s1)" and p: "(part, s') = pull_off sz s1" by blast
  from p have "part = fst (pull_off sz s1)" "s' = snd (pull_off sz s1)"
    by (metis fst_conv, metis snd_conv)
  with e exhausts_before_pull_off [of Z n sz s1 out] have "exhausts Z n s1 (part @ out)" by simp
  with fill_refills [OF wf f] show ?thesis by (blast intro: exhausts_refills)
qed

lemma read_short:
  assumes wf: "codec_wf Z" and r: "read Z n sz s = Some (Inr (part, s'))"
    and short: "length part < sz"
  shows "exhausts Z n s part"
proof -
  from read_Inr [OF r] obtain s1 where
    f: "fill Z n sz s = Some (Inr s1)" and part: "part = take sz (buffer s1)" by blast
  from short part have lt: "length (buffer s1) < sz" by simp
  with fill_refills [OF wf f] have bc: "buffer_chunk Z n s1 = Inr (False, s1)" by simp
  from exhausts.stop [OF bc] lt part have "exhausts Z n s1 part" by simp
  with fill_refills [OF wf f] show ?thesis by (blast intro: exhausts_refills)
qed

lemma scan_refills:
  assumes wf: "codec_wf Z" and f: "scan Z n mb ni ck s = Some (Inr (nj, s1))"
  shows "(refill Z n)\<^sup>*\<^sup>* s s1 \<and>
         (nj = None \<longrightarrow> \<not> room mb s1 \<or> buffer_chunk Z n s1 = Inr (False, s1))"
proof -
  from scan_SomeD [OF f] obtain s0 ni0 where
    s0: "(refill Z n)\<^sup>*\<^sup>* s s0" and e: "scan_end Z n mb ni0 s0 (Inr (nj, s1))" by blast
  show ?thesis
  proof (cases "ni0 = None \<and> room mb s0")
    case False
    with e have "s1 = s0" "nj = ni0" by (auto simp: scan_end_def)
    with s0 False show ?thesis by auto
  next
    case True
    with e have "buffer_chunk Z n s0 = Inr (False, s1)"
      by (cases "buffer_chunk Z n s0") (auto simp: scan_end_def split: prod.splits)
    moreover from bc_False_same [OF wf this] have "s1 = s0" .
    ultimately show ?thesis using s0 by simp
  qed
qed

lemma readline_alt:
  "readline Z n mb s =
     (case scan Z n mb (find_newline (buffer s) 0) (length (buffer s)) s of
        None \<Rightarrow> None
      | Some (Inl e) \<Rightarrow> Some (Inl e)
      | Some (Inr (nj, s1)) \<Rightarrow> read Z n (wanted mb nj s1) s1)"
  by (simp add: readline_def wanted_def split: option.splits sum.splits prod.splits)

lemma readline_Inr:
  "readline Z n mb s = Some (Inr (line, s')) \<Longrightarrow>
     \<exists>nj s1. scan Z n mb (find_newline (buffer s) 0) (length (buffer s)) s = Some (Inr (nj, s1)) \<and>
        read Z n (wanted mb nj s1) s1 = Some (Inr (line, s'))"
  by (auto simp: readline_alt split: option.splits sum.splits)

lemma readline_back:
  assumes wf: "codec_wf Z" and r: "readline Z n mb s = Some (Inr (line, s'))"
    and e: "exhausts Z n s' out"
  shows "exhausts Z n s (line @ out)"
proof -
  from readline_Inr [OF r] obtain nj s1 where
    sc: "scan Z n mb (find_newline (buffer s) 0) (length (buffer s)) s = Some (Inr (nj, s1))"
    and rd: "read Z n (wanted mb nj s1) s1 = Some (Inr (line, s'))" by blast
  from read_back [OF wf rd e] scan_refills [OF wf sc] show ?thesis
    by (blast intro: exhausts_refills)
qed

lemma readline_end:
  assumes wf: "codec_wf Z" and r: "readline Z n mb s = Some (Inr ([], s'))"
    and m: "mb \<noteq> Some 0"
  shows "exhausts Z n s []"
proof -
  from readline_Inr [OF r] obtain nj s1 where
    sc: "scan Z n mb (find_newline (buffer s) 0) (length (buffer s)) s = Some (Inr (nj, s1))"
    and rd: "read Z n (wanted mb nj s1) s1 = Some (Inr ([], s'))" by blast
  have "exhausts Z n s1 []"
  proof (cases "nj = None \<and> mb = None")
    case False
    with m have "0 < wanted mb nj s1"
      by (auto simp: wanted_def split: option.splits)
    with read_short [OF wf rd] show ?thesis by simp
  next
    case True
    with scan_refills [OF wf sc] have bc: "buffer_chunk Z n s1 = Inr (False, s1)"
      by (simp add: room_def)
    from True rd have "read Z n (length (buffer s1)) s1 = Some (Inr ([], s'))"
      by (simp add: wanted_def)
    from read_Inr [OF this] have "buffer s1 = []"
      by (subst (asm) fill.simps) auto
    with exhausts.stop [OF bc] show ?thesis by simp
  qed
  with scan_refills [OF wf sc] show ?thesis by (blast intro: exhausts_refills)
qed

lemma perform_back:
  assumes "codec_wf Z" "perform Z n c s = Some (Inr (x, s'))" "exhausts Z n s' out"
  shows "exhausts Z n s (x @ out)"
  using assms by (cases c) (auto intro: read_back readline_back)

lemma perform_end:
  assumes "codec_wf Z" "perform Z n c s = Some (Inr (x, s'))" "signals_end c x"
  shows "exhausts Z n s x"
proof (cases c)
  case (Read k)
  with assms show ?thesis by (auto intro: read_short)
next
  case (Readline mb)
  with assms(3) have "x = []" "mb \<noteq> Some 0" by (cases mb; simp)+
  with assms(1,2) Readline show ?thesis by (auto intro: readline_end)
qed

lemma run_Cons_Inr:
  "run Z n (c # cs) s = Some (Inr (xs, s')) \<Longrightarrow>
     \<exists>x s1 ys. perform Z n c s = Some (Inr (x, s1)) \<and> run Z n cs s1 = Some (Inr (ys, s')) \<and>
        xs = x # ys"
  by (auto split: option.splits sum.splits prod.splits)

lemma run_length: "run Z n cs s = Some (Inr (xs, s')) \<Longrightarrow> length xs = length cs"
proof (induction cs arbitrary: s xs)
  case Nil
  then show ?case by simp
next
  case (Cons c cs)
  from run_Cons_Inr [OF Cons.prems] Cons.IH show ?case by auto
qed

lemma run_to_the_end:
  assumes wf: "codec_wf Z"
  shows "cs \<noteq> [] \<Longrightarrow> run Z n cs s = Some (Inr (xs, s')) \<Longrightarrow>
           signals_end (last cs) (last xs) \<Longrightarrow> exhausts Z n s (concat xs)"
proof (induction cs arbitrary: s xs)
  case Nil
  then show ?case by simp
next
  case (Cons c cs)
  from run_Cons_Inr [OF Cons.prems(2)] obtain x s1 ys where
    p: "perform Z n c s = Some (Inr (x, s1))" and r: "run Z n cs s1 = Some (Inr (ys, s'))"
    and xs: "xs = x # ys" by blast
  show ?case
  proof (cases "cs = []")
    case True
    with r xs have "xs = [x]" by simp
    with Cons.prems(3) True perform_end [OF wf p] show ?thesis by simp
  next
    case False
    with run_length [OF r] have "ys \<noteq> []" by auto
    with Cons.prems(3) False xs have "signals_end (last cs) (last ys)" by simp
    from Cons.IH [OF False r this] have "exhausts Z n s1 (concat ys)" .
    from perform_back [OF wf p this] xs show ?thesis by simp
  qed
qed

text \<open>
  C7: take a decoder that meets \<open>codec_wf\<close> and any object. One caller makes \<open>k\<close>
  unbounded \<open>readline()\<close> calls, the last of which returns the empty string; another makes
  \<open>read\<close> calls of any sizes on the same object, the last of which returns fewer bytes than
  asked for (the empty string, for instance). Then the lines, put together in call order,
  are the bytes the reads return, put together in call order. Both sequences of calls
  end, by returning or by raising.
\<close>

theorem readline_results_concat_to_read_results:
  assumes "codec_wf Z"
    and "run Z n (replicate k (Readline None)) s = Some (Inr (ls, s1))"
    and "0 < k" and "last ls = []"
    and "run Z n (map Read szs) s = Some (Inr (rs, s2))"
    and "szs \<noteq> []" and "length (last rs) < last szs"
  shows "concat ls = concat rs \<and>
         (\<forall>cs. \<exists>r. run Z n cs s = Some r)"
proof -
  from assms(3) have k: "replicate k (Readline None) \<noteq> []"
    "last (replicate k (Readline None)) = Readline None" by auto
  from assms(4) k(2) have "signals_end (last (replicate k (Readline None))) (last ls)" by simp
  from run_to_the_end [OF assms(1) k(1) assms(2) this] have l: "exhausts Z n s (concat ls)" .
  from assms(6) have m: "map Read szs \<noteq> []" "last (map Read szs) = Read (last szs)"
    by (simp_all add: last_map)
  from assms(7) m(2) have "signals_end (last (map Read szs)) (last rs)" by simp
  from run_to_the_end [OF assms(1) m(1) assms(5) this] have "exhausts Z n s (concat rs)" .
  with l have "concat ls = concat rs" by (rule exhausts_deterministic)
  with run_terminates [OF assms(1)] show ?thesis by blast
qed

theorem readline_results_concat_to_read_results_witness:
  "codec_wf bracket \<and>
   run bracket CHUNK (replicate 3 (Readline None)) (init bracket (''hello'' @ [CHR 0x0A] @ ''world''))
     = Some (Inr ([''hello'' @ [CHR 0x0A], ''world'', []],
         \<lparr>stream = [], decompressor = Some (Broken, []), header_read = Some False,
          buffer = [], compressed_bytes = 11, uncompressed_bytes = 11\<rparr>)) \<and>
   run bracket CHUNK (map Read [4, 4, 4]) (init bracket (''hello'' @ [CHR 0x0A] @ ''world''))
     = Some (Inr ([''hell'', ''o'' @ [CHR 0x0A] @ ''wo'', ''rld''],
         \<lparr>stream = [], decompressor = Some (Broken, []), header_read = Some False,
          buffer = [], compressed_bytes = 11, uncompressed_bytes = 11\<rparr>)) \<and>
   concat [''hello'' @ [CHR 0x0A], ''world'', []]
     = concat [''hell'', ''o'' @ [CHR 0x0A] @ ''wo'', ''rld'']"
proof -
  let ?s = "init bracket (''hello'' @ [CHR 0x0A] @ ''world'')"
  let ?e = "\<lparr>stream = [], decompressor = Some (Broken, []), header_read = Some False,
          buffer = [], compressed_bytes = 11, uncompressed_bytes = 11\<rparr>"
  have a: "run bracket CHUNK (replicate 3 (Readline None)) ?s
     = Some (Inr ([''hello'' @ [CHR 0x0A], ''world'', []], ?e))"
    by (simp add: eval_defs numeral_3_eq_3)
  have b: "run bracket CHUNK (map Read [4, 4, 4]) ?s
     = Some (Inr ([''hell'', ''o'' @ [CHR 0x0A] @ ''wo'', ''rld''], ?e))"
    by (simp add: eval_defs)
  from readline_results_concat_to_read_results [OF bracket_wf a _ _ b]
  have "concat [''hello'' @ [CHR 0x0A], ''world'', []]
     = concat [''hell'', ''o'' @ [CHR 0x0A] @ ''wo'', ''rld'']" by simp
  with bracket_wf a b show ?thesis by blast
qed

subsection \<open>Reading an object that will not raise\<close>

lemma concat_slices: "concat (slices ks X) = take (sum_list ks) X"
proof (induction ks arbitrary: X)
  case Nil
  show ?case by simp
next
  case (Cons k ks)
  show ?case by (simp add: Cons.IH take_add)
qed

lemma fill_now: "sz \<le> length (buffer s) \<Longrightarrow> fill Z n sz s = Some (Inr s)"
  by (subst fill.simps) simp

lemma fill_at_end:
  "length (buffer s) < sz \<Longrightarrow> buffer_chunk Z n s = Inr (False, s') \<Longrightarrow>
     fill Z n sz s = Some (Inr s')"
  by (subst fill.simps) simp

lemma fill_forward:
  assumes wf: "codec_wf Z"
  shows "exhausts Z n s X \<Longrightarrow>
     \<exists>s1. fill Z n sz s = Some (Inr s1) \<and> exhausts Z n s1 X \<and>
          (sz \<le> length (buffer s1) \<or> X = buffer s1)"
proof (induction rule: exhausts.induct)
  case (stop s s')
  from bc_False_same [OF wf stop] have same: "s' = s" .
  have e: "exhausts Z n s (buffer s')" using stop by (rule exhausts.stop)
  show ?case
  proof (cases "sz \<le> length (buffer s)")
    case True
    with fill_now [OF True] e show ?thesis by blast
  next
    case False
    then have "fill Z n sz s = Some (Inr s')" using stop by (simp add: fill_at_end)
    with e same show ?thesis by auto
  qed
next
  case (step s s' out)
  show ?case
  proof (cases "sz \<le> length (buffer s)")
    case True
    from exhausts.step [OF step(1,2)] fill_now [OF True] True show ?thesis by blast
  next
    case False
    then have "fill Z n sz s = fill Z n sz s'" using step(1) by (simp add: fill_step)
    with step.IH show ?thesis by simp
  qed
qed

lemma read_forward:
  assumes wf: "codec_wf Z" and e: "exhausts Z n s X"
  shows "\<exists>s'. read Z n sz s = Some (Inr (take sz X, s')) \<and> exhausts Z n s' (drop sz X)"
proof -
  from fill_forward [OF wf e] obtain s1 where
    f: "fill Z n sz s = Some (Inr s1)" and e1: "exhausts Z n s1 X"
    and c: "sz \<le> length (buffer s1) \<or> X = buffer s1" by blast
  from exhausts_extends [OF e1] obtain Y where Y: "X = buffer s1 @ Y" by blast
  from c Y have t: "take sz (buffer s1) = take sz X" by auto
  from c Y have d: "drop sz (buffer s1) @ drop (length (buffer s1)) X = drop sz X" by auto
  from exhausts_frame [OF e1, where b = "drop sz (buffer s1)"
      and u = "uncompressed_bytes s1 + length (take sz (buffer s1))"]
  have "exhausts Z n (snd (pull_off sz s1)) (drop sz X)"
    by (simp add: pull_off_def Let_def d)
  moreover have "read Z n sz s = Some (Inr (take sz X, snd (pull_off sz s1)))"
    using f t by (simp add: read_def pull_off_def Let_def)
  ultimately show ?thesis by blast
qed

lemma reads_forward:
  assumes wf: "codec_wf Z"
  shows "exhausts Z n s X \<Longrightarrow>
     \<exists>s'. run Z n (map Read szs) s = Some (Inr (slices szs X, s')) \<and>
          exhausts Z n s' (drop (sum_list szs) X)"
proof (induction szs arbitrary: s X)
  case Nil
  then show ?case by simp
next
  case (Cons k ks)
  from read_forward [OF wf Cons.prems] obtain s1 where
    r: "read Z n k s = Some (Inr (take k X, s1))" and e: "exhausts Z n s1 (drop k X)" by blast
  from Cons.IH [OF e] obtain s' where
    "run Z n (map Read ks) s1 = Some (Inr (slices ks (drop k X), s'))"
    "exhausts Z n s' (drop (sum_list ks) (drop k X))" by blast
  with r show ?case by (simp add: add.commute)
qed

subsection \<open>A stream that is not compressed\<close>

lemma out_of_input_not_True:
  "header_read s \<noteq> Some True \<Longrightarrow> out_of_input Z s = Inr (False, s)"
  by (simp add: out_of_input_def split: option.splits)

lemma absorb_raw:
  "header_read s = Some False \<Longrightarrow> absorb Z c s = Inr (True, s\<lparr>buffer := buffer s @ c\<rparr>)"
  by (simp add: absorb_def)

lemma take_not_Nil_drop_shorter: "take n xs \<noteq> [] \<Longrightarrow> length (drop n xs) < length xs"
  by (cases n; cases xs) auto

lemma raw_exhausts:
  assumes n: "0 < n"
  shows "header_read s = Some False \<Longrightarrow>
     (\<forall>d. decompressor s = Some d \<longrightarrow> unused_data Z d = []) \<Longrightarrow>
     exhausts Z n s (buffer s @ stream s)"
proof (induction "length (stream s)" arbitrary: s rule: less_induct)
  case less
  let ?c = "take n (stream s)"
  let ?s1 = "s\<lparr>stream := drop n (stream s), compressed_bytes := compressed_bytes s + length ?c\<rparr>"
  have ni: "fst (next_input Z n s) = ?c" "snd (next_input Z n s) = ?s1"
    using less.prems(2) by (cases rule: next_input_cases [of s Z n]; simp)+
  show ?case
  proof (cases "?c = []")
    case True
    with n have e: "stream s = []" by (cases n; cases "stream s") auto
    from True ni less.prems(1) have "buffer_chunk Z n s = Inr (False, ?s1)"
      by (simp add: buffer_chunk_alt out_of_input_not_True)
    from exhausts.stop [OF this] e show ?thesis by simp
  next
    case False
    let ?s2 = "?s1\<lparr>buffer := buffer ?s1 @ ?c\<rparr>"
    from False ni less.prems(1) have bc: "buffer_chunk Z n s = Inr (True, ?s2)"
      by (simp add: buffer_chunk_alt absorb_raw)
    have "length (stream ?s2) < length (stream s)"
      using take_not_Nil_drop_shorter [OF False] by simp
    moreover have "header_read ?s2 = Some False" using less.prems(1) by simp
    moreover have "\<forall>d. decompressor ?s2 = Some d \<longrightarrow> unused_data Z d = []"
      using less.prems(2) by simp
    ultimately have "exhausts Z n ?s2 (buffer ?s2 @ stream ?s2)" by (rule less.hyps)
    then have "exhausts Z n ?s2 (buffer s @ stream s)" by simp
    with bc show ?thesis by (rule exhausts.step)
  qed
qed

lemma raw_init_exhausts:
  assumes wf: "codec_wf Z" and n: "0 < n"
    and bad: "snd (decompress Z (decompressobj Z) (take n data)) = None"
  shows "exhausts Z n (init Z data) data"
proof -
  let ?s = "init Z data"
  let ?c = "take n data"
  let ?s1 = "?s\<lparr>stream := drop n data, compressed_bytes := length ?c\<rparr>"
  from wf have fresh: "unused_data Z (decompressobj Z) = []" by (simp add: codec_wf_def)
  have ni: "fst (next_input Z n ?s) = ?c" "snd (next_input Z n ?s) = ?s1"
    using fresh by (cases rule: next_input_cases [of ?s Z n]; simp add: init_def)+
  show ?thesis
  proof (cases "?c = []")
    case True
    with n have e: "data = []" by (cases n; cases data) auto
    from True ni have "buffer_chunk Z n ?s = Inr (False, ?s1)"
      by (simp add: buffer_chunk_alt out_of_input_not_True init_def)
    from exhausts.stop [OF this] e show ?thesis by (simp add: init_def)
  next
    case False
    let ?d = "fst (decompress Z (decompressobj Z) ?c)"
    let ?s2 = "?s1\<lparr>decompressor := Some ?d, buffer := ?c, header_read := Some False\<rparr>"
    from bad have "absorb Z ?c ?s1 = Inr (True, ?s2)"
      by (cases "decompress Z (decompressobj Z) ?c") (simp add: absorb_def init_def)
    with False ni have bc: "buffer_chunk Z n ?s = Inr (True, ?s2)"
      by (simp add: buffer_chunk_alt)
    from wf bad have "unused_data Z ?d = []" by (simp add: codec_wf_def)
    then have u: "\<forall>d. decompressor ?s2 = Some d \<longrightarrow> unused_data Z d = []" by simp
    have "header_read ?s2 = Some False" by simp
    from this u have "exhausts Z n ?s2 (buffer ?s2 @ stream ?s2)" by (rule raw_exhausts [OF n])
    then have "exhausts Z n ?s2 data" by (simp add: init_def)
    with bc show ?thesis by (rule exhausts.step)
  qed
qed

text \<open>
  C3: take a decoder that meets \<open>codec_wf\<close>, a chunk size that is not zero, and a stream
  whose first chunk the fresh decoder rejects. Then every sequence of \<open>read\<close> calls on a
  new object returns, none raises, and the results put together are the first bytes of
  the stream, as many as were asked for: the whole stream, byte for byte, once that many
  were asked for. The rejection itself only sets \<open>header_read\<close> to \<open>False\<close>.
\<close>

theorem not_gzip_passes_through:
  assumes "codec_wf Z" and "0 < n"
    and "snd (decompress Z (decompressobj Z) (take n data)) = None"
  shows "\<exists>rs s'. run Z n (map Read szs) (init Z data) = Some (Inr (rs, s')) \<and>
           concat rs = take (sum_list szs) data \<and>
           (length data \<le> sum_list szs \<longrightarrow> concat rs = data)"
proof -
  from raw_init_exhausts [OF assms] have "exhausts Z n (init Z data) data" .
  from reads_forward [OF assms(1) this] obtain s' where
    "run Z n (map Read szs) (init Z data) = Some (Inr (slices szs data, s'))" by blast
  then show ?thesis by (auto simp: concat_slices)
qed

theorem not_gzip_passes_through_witness:
  "codec_wf bracket \<and> 0 < CHUNK \<and>
   snd (decompress bracket (decompressobj bracket) (take CHUNK ''plain text'')) = None \<and>
   run bracket CHUNK (map Read [4, 4, 4]) (init bracket ''plain text'')
     = Some (Inr ([''plai'', ''n te'', ''xt''],
         \<lparr>stream = [], decompressor = Some (Broken, []), header_read = Some False,
          buffer = [], compressed_bytes = 10, uncompressed_bytes = 10\<rparr>)) \<and>
   concat [''plai'', ''n te'', ''xt''] = ''plain text''"
proof -
  have n: "0 < CHUNK" by (simp add: CHUNK_def)
  have bad: "snd (decompress bracket (decompressobj bracket) (take CHUNK ''plain text'')) = None"
    by (simp add: eval_defs)
  have r: "run bracket CHUNK (map Read [4, 4, 4]) (init bracket ''plain text'')
     = Some (Inr ([''plai'', ''n te'', ''xt''],
         \<lparr>stream = [], decompressor = Some (Broken, []), header_read = Some False,
          buffer = [], compressed_bytes = 10, uncompressed_bytes = 10\<rparr>))"
    by (simp add: eval_defs)
  from not_gzip_passes_through [OF bracket_wf n bad, of "[4, 4, 4]"] r
  have "concat [''plai'', ''n te'', ''xt''] = ''plain text''" by simp
  with bracket_wf n bad r show ?thesis by blast
qed

subsection \<open>A stream of concatenated members\<close>

lemma feed_snoc:
  "feed Z d0 (cs @ [c]) =
     (case feed Z d0 cs of
        None \<Rightarrow> None
      | Some (d, outs) \<Rightarrow>
          (case decompress Z d c of
             (d', None) \<Rightarrow> None
           | (d', Some out) \<Rightarrow> Some (d', outs @ out)))"
  by (induction cs arbitrary: d0) (auto split: option.splits prod.splits)

lemma feed_snoc_Some:
  assumes "feed Z d0 cs = Some (d, outs)" "feed Z d0 (cs @ [c]) = Some (d', outs')"
  shows "\<exists>out. decompress Z d c = (d', Some out) \<and> outs' = outs @ out"
  using assms by (auto simp: feed_snoc split: option.splits prod.splits)

lemma members_Nil:
  assumes "decodes Z M" "list_all2 M ms ps" "concat ms = []"
  shows "ms = [] \<and> ps = []"
proof (cases ms)
  case Nil
  with assms(2) show ?thesis by simp
next
  case (Cons m ms1)
  with assms(2) obtain p ps1 where "ps = p # ps1" "M m p" by (auto simp: list_all2_Cons1)
  with assms(1) have "m \<noteq> []" by (auto simp: decodes_def)
  with assms(3) Cons show ?thesis by simp
qed

lemma position:
  assumes dc: "decodes Z M" and ms: "list_all2 M ms ps"
    and eq: "concat cs @ rest = concat ms" and ne: "concat cs \<noteq> []"
  shows "\<exists>m p ms1 ps1 d outs. ms = m # ms1 \<and> ps = p # ps1 \<and> list_all2 M ms1 ps1 \<and>
           feed Z (decompressobj Z) cs = Some (d, outs) \<and>
           ((unused_data Z d = [] \<and> length (concat cs) < length m) \<or>
            (concat cs = m @ unused_data Z d \<and> unused_data Z d @ rest = concat ms1 \<and>
             outs @ snd (flush Z d) = p))"
proof -
  from eq ne have "ms \<noteq> []" by auto
  then obtain m ms1 where m: "ms = m # ms1" by (cases ms) auto
  with ms obtain p ps1 where p: "ps = p # ps1" "M m p" "list_all2 M ms1 ps1"
    by (auto simp: list_all2_Cons1)
  from eq m have "concat cs @ rest = m @ concat ms1" by simp
  then obtain u where
    u: "(concat cs = m @ u \<and> u @ rest = concat ms1) \<or> (concat cs @ u = m \<and> rest = u @ concat ms1)"
    by (auto simp: append_eq_append_conv2)
  show ?thesis
  proof (cases "\<exists>t. concat cs = m @ t")
    case True
    then obtain t where t: "concat cs = m @ t" by blast
    with \<open>concat cs @ rest = m @ concat ms1\<close> have r: "t @ rest = concat ms1" by simp
    from dc p(2) t obtain d outs where
      "feed Z (decompressobj Z) cs = Some (d, outs)" "unused_data Z d = t"
      "outs @ snd (flush Z d) = p"
      unfolding decodes_def by blast
    with m p t r show ?thesis by blast
  next
    case False
    with u have v: "concat cs @ u = m" "u \<noteq> []" by auto
    with dc p(2) obtain d outs where
      "feed Z (decompressobj Z) cs = Some (d, outs)" "unused_data Z d = []"
      unfolding decodes_def by blast
    moreover from v have "length (concat cs) < length m" by (metis length_append length_greater_0_conv less_add_same_cancel1)
    ultimately show ?thesis using m p by blast
  qed
qed

lemma next_input_pull:
  assumes "\<forall>d. decompressor s = Some d \<longrightarrow> unused_data Z d = []"
  shows "fst (next_input Z n s) = take n (stream s)"
    "snd (next_input Z n s) =
       s\<lparr>stream := drop n (stream s),
         compressed_bytes := compressed_bytes s + length (take n (stream s))\<rparr>"
  using assms by (cases rule: next_input_cases [of s Z n]; simp)+

lemma bc_pull_feed:
  assumes "decompressor s = Some d" "unused_data Z d = []" "take n (stream s) \<noteq> []"
    "header_read s \<noteq> Some False" "decompress Z d (take n (stream s)) = (d', Some out)"
  shows "\<exists>s'. buffer_chunk Z n s = Inr (True, s') \<and> stream s' = drop n (stream s) \<and>
           decompressor s' = Some d' \<and> buffer s' = buffer s @ out \<and>
           header_read s' = Some True"
proof -
  from assms(1,2) have "\<forall>d. decompressor s = Some d \<longrightarrow> unused_data Z d = []" by simp
  note ni = next_input_pull [OF this, of n]
  show ?thesis
  proof (cases "header_read s")
    case None
    with assms(1,3,5) show ?thesis by (simp add: buffer_chunk_alt ni absorb_def)
  next
    case (Some h)
    with assms(4) have "header_read s = Some True" by simp
    with assms(1,3,5) show ?thesis by (simp add: buffer_chunk_alt ni absorb_def)
  qed
qed

lemma bc_recycle_feed:
  assumes wf: "codec_wf Z" and "decompressor s = Some d" "unused_data Z d \<noteq> []"
    "header_read s = Some True"
    "decompress Z (decompressobj Z) (unused_data Z d) = (d', Some out)"
  shows "\<exists>s'. buffer_chunk Z n s = Inr (True, s') \<and> stream s' = stream s \<and>
           decompressor s' = Some d' \<and> buffer s' = buffer s @ snd (flush Z d) @ out \<and>
           header_read s' = Some True"
proof (cases rule: next_input_cases [of s Z n])
  case (recycle e)
  with assms(2) have e: "e = d" by simp
  from recycle(3) wf e have c: "fst (next_input Z n s) = unused_data Z d"
    by (simp add: codec_wf_flush)
  with assms(3,4,5) recycle(4) e show ?thesis
    by (simp add: buffer_chunk_alt absorb_def)
next
  case pull
  with assms(2,3) show ?thesis by simp
qed

lemma bc_final_flush:
  assumes "decompressor s = Some d" "unused_data Z d = []" "stream s = []"
    "header_read s = Some True"
  shows "\<exists>s'. buffer_chunk Z n s = Inr (True, s') \<and> buffer s' = buffer s @ snd (flush Z d) \<and>
           decompressor s' = None \<and> stream s' = []"
proof -
  from assms(1,2) have "\<forall>d. decompressor s = Some d \<longrightarrow> unused_data Z d = []" by simp
  note ni = next_input_pull [OF this, of n]
  from assms show ?thesis
    by (simp add: buffer_chunk_alt ni out_of_input_def case_prod_beta)
qed

lemma bc_nothing_left:
  assumes "\<forall>d. decompressor s = Some d \<longrightarrow> unused_data Z d = []" "stream s = []"
    "decompressor s = None \<or> header_read s \<noteq> Some True"
  shows "\<exists>s'. buffer_chunk Z n s = Inr (False, s') \<and> buffer s' = buffer s"
proof -
  note ni = next_input_pull [OF assms(1), of n]
  from assms(2,3) show ?thesis
    by (auto simp: buffer_chunk_alt ni out_of_input_def split: option.splits)
qed

lemma feed_single:
  "feed Z d0 [c] = Some (d', out) \<Longrightarrow> decompress Z d0 c = (d', Some out)"
  by (auto split: prod.splits option.splits)

lemma take_Nil_stream: "0 < n \<Longrightarrow> take n xs = [] \<Longrightarrow> xs = []"
  by (cases n; cases xs) auto

lemma gzip_exhausts:
  assumes wf: "codec_wf Z" and dc: "decodes Z M" and n: "0 < n"
  shows "list_all2 M ms ps \<Longrightarrow> decompressor s = Some d \<Longrightarrow>
     feed Z (decompressobj Z) cs = Some (d, outs) \<Longrightarrow> [] \<notin> set cs \<Longrightarrow>
     concat cs @ stream s = concat ms \<Longrightarrow>
     header_read s = (if cs = [] then None else Some True) \<Longrightarrow>
     \<exists>R. exhausts Z n s (buffer s @ R) \<and> outs @ R = concat ps"
proof (induction s arbitrary: ms ps d cs outs rule: wf_induct_rule [OF wf_remains [of Z]])
  case (1 s)
  note ms = "1.prems"(1) and dec = "1.prems"(2) and fd = "1.prems"(3)
    and nonempty = "1.prems"(4) and eq = "1.prems"(5) and hdr = "1.prems"(6)
  let ?c = "take n (stream s)"
  have feed_step: "\<exists>R. exhausts Z n s (buffer s @ R) \<and> outs @ R = concat ps"
    if u: "unused_data Z d = []" and c: "?c \<noteq> []"
  proof -
    let ?cs' = "cs @ [?c]"
    have "concat cs @ ?c @ drop n (stream s) = concat ms" using eq by simp
    then have eq': "concat ?cs' @ drop n (stream s) = concat ms" by simp
    have ne': "concat ?cs' \<noteq> []" using c by simp
    from position [OF dc ms eq' ne'] obtain d' outs' where
      f': "feed Z (decompressobj Z) ?cs' = Some (d', outs')" by blast
    from feed_snoc_Some [OF fd f'] obtain out where
      o: "decompress Z d ?c = (d', Some out)" and outs': "outs' = outs @ out" by blast
    have h: "header_read s \<noteq> Some False" using hdr by (simp split: if_splits)
    from bc_pull_feed [OF dec u c h o] obtain s' where
      bc: "buffer_chunk Z n s = Inr (True, s')" and st: "stream s' = drop n (stream s)"
      and de: "decompressor s' = Some d'" and bu: "buffer s' = buffer s @ out"
      and he: "header_read s' = Some True" by blast
    from bc have "refill Z n s s'" by (simp add: refill_def)
    from refill_decreases [OF wf this] have less: "(s', s) \<in> remains Z" .
    have ne_cs: "[] \<notin> set ?cs'" using nonempty c by simp
    have eq_s': "concat ?cs' @ stream s' = concat ms" using eq' st by simp
    have he': "header_read s' = (if ?cs' = [] then None else Some True)" using he by simp
    from "1.IH" [OF less ms de f' ne_cs eq_s' he'] obtain R' where
      "exhausts Z n s' (buffer s' @ R')" "outs' @ R' = concat ps" by blast
    with bu outs' have "exhausts Z n s' (buffer s @ out @ R')" "outs @ out @ R' = concat ps"
      by simp_all
    with exhausts.step [OF bc] show ?thesis by blast
  qed
  have at_end: "stream s = []" if "?c = []" using take_Nil_stream [OF n that] .
  show ?case
  proof (cases "cs = []")
    case True
    with fd have d: "d = decompressobj Z" "outs = []" by simp_all
    with wf have u: "unused_data Z d = []" by (simp add: codec_wf_def)
    show ?thesis
    proof (cases "?c = []")
      case False
      with u show ?thesis by (rule feed_step)
    next
      case c: True
      from at_end [OF c] eq True have "concat ms = []" by simp
      from members_Nil [OF dc ms this] have ps: "ps = []" by simp
      from dec u have "\<forall>d. decompressor s = Some d \<longrightarrow> unused_data Z d = []" by simp
      moreover from hdr True have "decompressor s = None \<or> header_read s \<noteq> Some True" by simp
      ultimately obtain s' where "buffer_chunk Z n s = Inr (False, s')" "buffer s' = buffer s"
        using bc_nothing_left [of s Z n] at_end [OF c] by blast
      from exhausts.stop [OF this(1)] this(2) have "exhausts Z n s (buffer s @ [])" by simp
      with d(2) ps show ?thesis by (intro exI [of _ "[]"]) simp
    qed
  next
    case False
    with nonempty have ne: "concat cs \<noteq> []" by (cases cs) auto
    from False hdr have ht: "header_read s = Some True" by simp
    from position [OF dc ms eq ne] fd obtain m p ms1 ps1 where
      m: "ms = m # ms1" and p: "ps = p # ps1" and ms1: "list_all2 M ms1 ps1"
      and pos: "(unused_data Z d = [] \<and> length (concat cs) < length m) \<or>
            (concat cs = m @ unused_data Z d \<and> unused_data Z d @ stream s = concat ms1 \<and>
             outs @ snd (flush Z d) = p)" by auto
    show ?thesis
    proof (cases "unused_data Z d = [] \<and> ?c \<noteq> []")
      case True
      then show ?thesis using feed_step by blast
    next
      case nofeed: False
      show ?thesis
      proof (cases "unused_data Z d = []")
        case u: True
        with nofeed have c: "?c = []" by simp
        from at_end [OF c] eq m have "concat cs = m @ concat ms1" by simp
        with pos u have "concat ms1 = []" and fl: "outs @ snd (flush Z d) = p" by auto
        from members_Nil [OF dc ms1 this(1)] have ps1: "ps1 = []" by simp
        from bc_final_flush [OF dec u at_end [OF c] ht, of n] obtain s2 where
          bc: "buffer_chunk Z n s = Inr (True, s2)"
          and bu: "buffer s2 = buffer s @ snd (flush Z d)"
          and de: "decompressor s2 = None" and st: "stream s2 = []" by blast
        from de st obtain s3 where "buffer_chunk Z n s2 = Inr (False, s3)" "buffer s3 = buffer s2"
          using bc_nothing_left [of s2 Z n] by auto
        from exhausts.stop [OF this(1)] this(2) bu
        have "exhausts Z n s2 (buffer s @ snd (flush Z d))" by simp
        from exhausts.step [OF bc this] fl p ps1 show ?thesis
          by (intro exI [of _ "snd (flush Z d)"]) simp
      next
        case t: False
        let ?t = "unused_data Z d"
        from pos t have r: "?t @ stream s = concat ms1" and fl: "outs @ snd (flush Z d) = p"
          by auto
        from r have eq1: "concat [?t] @ stream s = concat ms1" by simp
        from t have ne1: "concat [?t] \<noteq> []" by simp
        from position [OF dc ms1 eq1 ne1] obtain d' out' where
          f1: "feed Z (decompressobj Z) [?t] = Some (d', out')" by blast
        from feed_single [OF f1] have o: "decompress Z (decompressobj Z) ?t = (d', Some out')" .
        from bc_recycle_feed [OF wf dec t ht o, of n] obtain s' where
          bc: "buffer_chunk Z n s = Inr (True, s')" and st: "stream s' = stream s"
          and de: "decompressor s' = Some d'"
          and bu: "buffer s' = buffer s @ snd (flush Z d) @ out'"
          and he: "header_read s' = Some True" by blast
        from bc have "refill Z n s s'" by (simp add: refill_def)
        from refill_decreases [OF wf this] have less: "(s', s) \<in> remains Z" .
        have ne_cs: "[] \<notin> set [?t]" using t by simp
        have eq_s': "concat [?t] @ stream s' = concat ms1" using eq1 st by simp
        have he': "header_read s' = (if [?t] = [] then None else Some True)" using he by simp
        from "1.IH" [OF less ms1 de f1 ne_cs eq_s' he'] obtain R' where
          "exhausts Z n s' (buffer s' @ R')" "out' @ R' = concat ps1" by blast
        with bu fl p have "exhausts Z n s' (buffer s @ snd (flush Z d) @ out' @ R')"
          "outs @ snd (flush Z d) @ out' @ R' = concat ps" by auto
        with exhausts.step [OF bc] show ?thesis by blast
      qed
    qed
  qed
qed

lemma gzip_init_exhausts:
  assumes wf: "codec_wf Z" and dc: "decodes Z M" and n: "0 < n"
    and ms: "list_all2 M ms ps"
  shows "exhausts Z n (init Z (concat ms)) (concat ps)"
proof -
  have "\<exists>R. exhausts Z n (init Z (concat ms)) (buffer (init Z (concat ms)) @ R) \<and>
          [] @ R = concat ps"
    by (rule gzip_exhausts [OF wf dc n ms, where cs = "[]" and d = "decompressobj Z"])
       (simp_all add: init_def)
  then show ?thesis by (simp add: init_def)
qed

subsection \<open>The miniature decoder decodes its members\<close>

lemma plain_append: "plain (a @ b) \<longleftrightarrow> plain a \<and> plain b"
  by (auto simp: plain_def)

lemma bracket_run_plain: "plain c \<Longrightarrow> bracket_run Body c = (Body, [], Some c)"
  by (induction c) (auto simp: plain_def)

lemma bracket_run_close:
  "plain p \<Longrightarrow> bracket_run Body (p @ CHR ''>'' # t) = (Done, t, Some p)"
  by (induction p) (auto simp: plain_def)

lemma bracket_flush: "flush bracket d = (d, [])"
  by (simp add: bracket_def)

lemma bracket_decompress_eq:
  "decompress bracket d c =
     (case bracket_run (fst d) c of (p, u, out) \<Rightarrow> ((p, snd d @ u), out))"
  by (simp add: bracket_def bracket_decompress_def)

lemma feed_done: "feed bracket (Done, u) cs = Some ((Done, u @ concat cs), [])"
  by (induction cs arbitrary: u) (simp_all add: bracket_decompress_eq)

lemma feed_body_plain:
  "plain (concat cs) \<Longrightarrow> feed bracket (Body, []) cs = Some ((Body, []), concat cs)"
  by (induction cs) (simp_all add: bracket_decompress_eq bracket_run_plain plain_append)

lemma feed_body_close:
  "plain p \<Longrightarrow> concat cs = p @ CHR ''>'' # t \<Longrightarrow>
     feed bracket (Body, []) cs = Some ((Done, t), p)"
proof (induction cs arbitrary: p)
  case Nil
  then show ?case by simp
next
  case (Cons c cs)
  from Cons.prems(2) have "c @ concat cs = p @ CHR ''>'' # t" by simp
  then obtain u where
    u: "(c = p @ u \<and> u @ concat cs = CHR ''>'' # t) \<or> (c @ u = p \<and> concat cs = u @ CHR ''>'' # t)"
    by (auto simp: append_eq_append_conv2)
  show ?case
  proof (cases "\<exists>v. c @ v = p \<and> concat cs = v @ CHR ''>'' # t")
    case True
    then obtain v where v: "c @ v = p" "concat cs = v @ CHR ''>'' # t" by blast
    with Cons.prems(1) have pl: "plain c" "plain v" by (auto simp: plain_append)
    from Cons.IH [OF pl(2) v(2)] pl(1) v(1) show ?thesis
      by (simp add: bracket_decompress_eq bracket_run_plain)
  next
    case False
    with u have c: "c = p @ u" "u @ concat cs = CHR ''>'' # t" "u \<noteq> []" by auto
    then obtain u' where u': "u = CHR ''>'' # u'" "u' @ concat cs = t"
      by (cases u) auto
    with c(1) Cons.prems(1) show ?thesis
      by (simp add: bracket_decompress_eq bracket_run_close feed_done)
  qed
qed

lemma feed_header_step:
  "feed bracket (Header, []) ((CHR ''<'' # c) # cs) = feed bracket (Body, []) (c # cs)"
  by (simp add: bracket_decompress_eq)

lemma feed_header_close:
  "plain p \<Longrightarrow> concat cs = CHR ''<'' # p @ CHR ''>'' # t \<Longrightarrow>
     feed bracket (Header, []) cs = Some ((Done, t), p)"
proof (induction cs)
  case Nil
  then show ?case by simp
next
  case (Cons c cs)
  show ?case
  proof (cases c)
    case Nil
    with Cons show ?thesis by (simp add: bracket_decompress_eq)
  next
    case (Cons x c')
    with Cons.prems(2) have x: "x = CHR ''<''" and r: "concat (c' # cs) = p @ CHR ''>'' # t"
      by simp_all
    from feed_body_close [OF Cons.prems(1) r] x Cons show ?thesis
      by (simp only: feed_header_step)
  qed
qed

lemma feed_header_open:
  "plain p \<Longrightarrow> t \<noteq> [] \<Longrightarrow> concat cs @ t = CHR ''<'' # p @ ''>'' \<Longrightarrow>
     \<exists>d outs. feed bracket (Header, []) cs = Some (d, outs) \<and> snd d = []"
proof (induction cs)
  case Nil
  then show ?case by simp
next
  case (Cons c cs)
  show ?case
  proof (cases c)
    case Nil
    with Cons show ?thesis by (auto simp: bracket_decompress_eq)
  next
    case c: (Cons x c')
    with Cons.prems(3) have x: "x = CHR ''<''" and r: "concat (c' # cs) @ t = p @ ''>''"
      by simp_all
    from Cons.prems(2) obtain t0 y where t: "t = t0 @ [y]" by (cases t rule: rev_cases) auto
    with r have "concat (c' # cs) @ t0 = p" by (metis append_assoc butlast_snoc)
    with Cons.prems(1) have "plain (concat (c' # cs))" by (auto simp: plain_append)
    from feed_body_plain [OF this] x c show ?thesis by (simp only: feed_header_step) simp
  qed
qed

lemma bracket_decodes: "decodes bracket bracket_member"
proof -
  have fresh: "decompressobj bracket = (Header, [])" by (simp add: bracket_def)
  have un: "unused_data bracket d = snd d" for d by (simp add: bracket_def)
  have 1: "m \<noteq> []" if "bracket_member m p" for m p
    using that by (simp add: bracket_member_def)
  have 2: "\<exists>d outs. feed bracket (decompressobj bracket) cs = Some (d, outs) \<and>
           unused_data bracket d = t \<and> outs @ snd (flush bracket d) = p"
    if "bracket_member m p" "concat cs = m @ t" for cs m p t
  proof -
    from that have "plain p" "concat cs = CHR ''<'' # p @ CHR ''>'' # t"
      by (simp_all add: bracket_member_def)
    from feed_header_close [OF this] show ?thesis by (simp add: fresh un bracket_flush)
  qed
  have 3: "\<exists>d outs. feed bracket (decompressobj bracket) cs = Some (d, outs) \<and>
           unused_data bracket d = []"
    if "bracket_member m p" "t \<noteq> []" "concat cs @ t = m" for cs m p t
  proof -
    from that have "plain p" "concat cs @ t = CHR ''<'' # p @ ''>''"
      by (simp_all add: bracket_member_def)
    from feed_header_open [OF this(1) that(2) this(2)] show ?thesis by (simp add: fresh un)
  qed
  from 1 2 3 show ?thesis unfolding decodes_def by blast
qed

subsection \<open>Member boundaries and chunk sizes\<close>

lemma recycle_is_absorb:
  assumes wf: "codec_wf Z" and "decompressor s = Some d" "unused_data Z d \<noteq> []"
  shows "buffer_chunk Z n s =
     absorb Z (unused_data Z d)
       (s\<lparr>buffer := buffer s @ snd (flush Z d), decompressor := Some (decompressobj Z)\<rparr>)"
proof (cases rule: next_input_cases [of s Z n])
  case (recycle e)
  with assms(2) have e: "e = d" by simp
  from recycle(3) wf e have c: "fst (next_input Z n s) = unused_data Z d"
    by (simp add: codec_wf_flush)
  with assms(3) recycle(4) e show ?thesis by (simp add: buffer_chunk_alt)
next
  case pull
  with assms(2,3) show ?thesis by simp
qed

lemma first_refill_header:
  assumes wf: "codec_wf Z"
  shows "header_read (state_of (buffer_chunk Z n (init Z data))) =
     (if take n data = [] then None
      else Some (snd (decompress Z (decompressobj Z) (take n data)) \<noteq> None))"
proof -
  let ?s = "init Z data"
  let ?s1 = "snd (next_input Z n ?s)"
  from wf have "\<forall>d. decompressor ?s = Some d \<longrightarrow> unused_data Z d = []"
    by (simp add: init_def codec_wf_def)
  note ni = next_input_pull [OF this, of n]
  have c: "fst (next_input Z n ?s) = take n data" by (simp add: ni(1)) (simp add: init_def)
  have h: "header_read ?s1 = None"
    using next_input_fields(1) [of Z n ?s] by (simp add: init_def)
  have d: "decompressor ?s1 = Some (decompressobj Z)"
    by (simp add: ni(2)) (simp add: init_def)
  show ?thesis
  proof (cases "take n data = []")
    case True
    with c h show ?thesis by (simp add: buffer_chunk_alt out_of_input_fields)
  next
    case False
    from absorb_decides [OF h d, where c = "take n data"] False c show ?thesis
      by (simp add: buffer_chunk_alt)
  qed
qed

lemma gzip_first_chunk_accepted:
  assumes dc: "decodes Z M" and ms: "list_all2 M ms ps" and c: "take n (concat ms) \<noteq> []"
  shows "snd (decompress Z (decompressobj Z) (take n (concat ms))) \<noteq> None"
proof -
  have eq: "concat [take n (concat ms)] @ drop n (concat ms) = concat ms" by simp
  from c have ne: "concat [take n (concat ms)] \<noteq> []" by simp
  from position [OF dc ms eq ne] obtain d outs where
    "feed Z (decompressobj Z) [take n (concat ms)] = Some (d, outs)" by blast
  from feed_single [OF this] show ?thesis by simp
qed

text \<open>
  C4: take a decoder that meets \<open>codec_wf\<close> and decodes the members \<open>M\<close>, a chunk size that
  is not zero, and a stream that is a concatenation of members. Then every sequence of
  \<open>read\<close> calls on a new object returns, none raises, and the results put together are
  the first bytes of the members' outputs concatenated in member order, as many as were
  asked for: all of them once that many were asked for. And whenever \<open>buffer_chunk\<close> finds
  a decoder with unused data, the decoder's flushed output goes to the buffer, a fresh
  decoder takes its place, and the unused data is what the fresh decoder is given: with
  \<open>header_read\<close> true it is decompressed by the fresh decoder and the output appended.
\<close>

theorem gzip_members_read_in_order:
  assumes "codec_wf Z" and "decodes Z M" and "0 < n" and "list_all2 M ms ps"
  shows "(\<exists>rs s'. run Z n (map Read szs) (init Z (concat ms)) = Some (Inr (rs, s')) \<and>
            concat rs = take (sum_list szs) (concat ps) \<and>
            (length (concat ps) \<le> sum_list szs \<longrightarrow> concat rs = concat ps)) \<and>
         (decompressor s = Some d \<and> unused_data Z d \<noteq> [] \<longrightarrow>
            buffer_chunk Z n s =
              absorb Z (unused_data Z d)
                (s\<lparr>buffer := buffer s @ snd (flush Z d),
                   decompressor := Some (decompressobj Z)\<rparr>) \<and>
            (header_read s = Some True \<and>
             decompress Z (decompressobj Z) (unused_data Z d) = (d', Some out) \<longrightarrow>
               buffer_chunk Z n s =
                 Inr (True, s\<lparr>buffer := buffer s @ snd (flush Z d) @ out,
                               decompressor := Some d'\<rparr>)))"
proof -
  from gzip_init_exhausts [OF assms] have "exhausts Z n (init Z (concat ms)) (concat ps)" .
  from reads_forward [OF assms(1) this] obtain s' where
    "run Z n (map Read szs) (init Z (concat ms)) = Some (Inr (slices szs (concat ps), s'))"
    by blast
  then have a: "\<exists>rs s'. run Z n (map Read szs) (init Z (concat ms)) = Some (Inr (rs, s')) \<and>
            concat rs = take (sum_list szs) (concat ps) \<and>
            (length (concat ps) \<le> sum_list szs \<longrightarrow> concat rs = concat ps)"
    by (auto simp: concat_slices)
  have b: "buffer_chunk Z n s =
              absorb Z (unused_data Z d)
                (s\<lparr>buffer := buffer s @ snd (flush Z d),
                   decompressor := Some (decompressobj Z)\<rparr>)"
    if "decompressor s = Some d" "unused_data Z d \<noteq> []"
    using recycle_is_absorb [OF assms(1) that] .
  have c: "buffer_chunk Z n s =
                 Inr (True, s\<lparr>buffer := buffer s @ snd (flush Z d) @ out,
                               decompressor := Some d'\<rparr>)"
    if "decompressor s = Some d" "unused_data Z d \<noteq> []" "header_read s = Some True"
      "decompress Z (decompressobj Z) (unused_data Z d) = (d', Some out)"
    using that by (simp add: b absorb_def)
  from a b c show ?thesis by blast
qed

theorem gzip_members_read_in_order_witness:
  "codec_wf bracket \<and> decodes bracket bracket_member \<and>
   list_all2 bracket_member [''<foo>'', ''<bar>''] [''foo'', ''bar''] \<and>
   run bracket 4 (map Read [10]) (init bracket (concat [''<foo>'', ''<bar>'']))
     = Some (Inr ([''foobar''],
         \<lparr>stream = [], decompressor = None, header_read = Some True,
          buffer = [], compressed_bytes = 10, uncompressed_bytes = 6\<rparr>)) \<and>
   concat [''foobar''] = concat [''foo'', ''bar'']"
proof -
  have m: "list_all2 bracket_member [''<foo>'', ''<bar>''] [''foo'', ''bar'']"
    by (simp add: bracket_member_def plain_def)
  have r: "run bracket 4 (map Read [10]) (init bracket (concat [''<foo>'', ''<bar>'']))
     = Some (Inr ([''foobar''],
         \<lparr>stream = [], decompressor = None, header_read = Some True,
          buffer = [], compressed_bytes = 10, uncompressed_bytes = 6\<rparr>))"
    by (simp add: eval_defs)
  have "(4::nat) > 0" by simp
  from gzip_members_read_in_order [OF bracket_wf bracket_decodes this m, of "[10]"] r
  have "concat [''foobar''] = concat [''foo'', ''bar'']" by simp
  with bracket_wf bracket_decodes m r show ?thesis by blast
qed

text \<open>
  C5, as stated: for every byte sequence the bytes delivered and the detection outcome do
  not depend on the chunk size. The three bytes \<open><a<\<close> show otherwise for the miniature
  format: a header, one byte of payload, then a byte that is corrupt inside a member. With
  the source's chunk size the first chunk is the whole stream, the decoder rejects it and
  the stream passes through; with chunks of one byte the first chunk is a good header, the
  stream counts as compressed, and the corrupt byte raises \<open>zlib.error\<close> out of \<open>read\<close>.
\<close>

theorem chunk_size_changes_outcome:
  "run bracket CHUNK [Read 10] (init bracket ''<a<'') =
     Some (Inr ([''<a<''],
       \<lparr>stream = [], decompressor = Some (Broken, []), header_read = Some False,
        buffer = [], compressed_bytes = 3, uncompressed_bytes = 3\<rparr>)) \<and>
   run bracket 1 [Read 10] (init bracket ''<a<'') =
     Some (Inl (ZlibError,
       \<lparr>stream = [], decompressor = Some (Broken, []), header_read = Some True,
        buffer = ''a'', compressed_bytes = 3, uncompressed_bytes = 0\<rparr>)) \<and>
   header_read (state_of (buffer_chunk bracket CHUNK (init bracket ''<a<''))) = Some False \<and>
   header_read (state_of (buffer_chunk bracket 1 (init bracket ''<a<''))) = Some True"
  by (simp add: eval_defs)

text \<open>
  C5, amended: take a decoder that meets \<open>codec_wf\<close>, two chunk sizes that are not zero,
  and a stream that either is a concatenation of members the decoder decodes, or has its
  first chunk rejected by the fresh decoder under both chunk sizes. Then every sequence
  of \<open>read\<close> calls returns the same results under both chunk sizes, none raising, and the
  first refill leaves \<open>header_read\<close> the same.
\<close>

theorem chunk_size_independent:
  assumes "codec_wf Z" and "0 < n1" and "0 < n2"
    and "(decodes Z M \<and> list_all2 M ms ps \<and> data = concat ms) \<or>
         (snd (decompress Z (decompressobj Z) (take n1 data)) = None \<and>
          snd (decompress Z (decompressobj Z) (take n2 data)) = None)"
  shows "\<exists>rs s1 s2.
           run Z n1 (map Read szs) (init Z data) = Some (Inr (rs, s1)) \<and>
           run Z n2 (map Read szs) (init Z data) = Some (Inr (rs, s2)) \<and>
           header_read (state_of (buffer_chunk Z n1 (init Z data))) =
             header_read (state_of (buffer_chunk Z n2 (init Z data)))"
proof -
  have e: "\<exists>X. exhausts Z n1 (init Z data) X \<and> exhausts Z n2 (init Z data) X"
    using assms(4)
  proof
    assume g: "decodes Z M \<and> list_all2 M ms ps \<and> data = concat ms"
    then have "exhausts Z n1 (init Z data) (concat ps)" "exhausts Z n2 (init Z data) (concat ps)"
      using gzip_init_exhausts [OF assms(1) _ assms(2), of M ms ps]
        gzip_init_exhausts [OF assms(1) _ assms(3), of M ms ps] by simp_all
    then show ?thesis by blast
  next
    assume "snd (decompress Z (decompressobj Z) (take n1 data)) = None \<and>
          snd (decompress Z (decompressobj Z) (take n2 data)) = None"
    then have "exhausts Z n1 (init Z data) data" "exhausts Z n2 (init Z data) data"
      using raw_init_exhausts [OF assms(1,2)] raw_init_exhausts [OF assms(1,3)] by simp_all
    then show ?thesis by blast
  qed
  then obtain X where X: "exhausts Z n1 (init Z data) X" "exhausts Z n2 (init Z data) X"
    by blast
  from reads_forward [OF assms(1) X(1)] reads_forward [OF assms(1) X(2)] obtain s1 s2 where
    r: "run Z n1 (map Read szs) (init Z data) = Some (Inr (slices szs X, s1))"
    "run Z n2 (map Read szs) (init Z data) = Some (Inr (slices szs X, s2))" by blast
  have t: "take n1 data = [] \<longleftrightarrow> take n2 data = []"
    using assms(2,3) by (cases n1; cases n2; cases data) auto
  have h: "header_read (state_of (buffer_chunk Z n1 (init Z data))) =
             header_read (state_of (buffer_chunk Z n2 (init Z data)))"
    using assms(4)
  proof
    assume g: "decodes Z M \<and> list_all2 M ms ps \<and> data = concat ms"
    show ?thesis
    proof (cases "take n1 data = []")
      case True
      with t show ?thesis by (simp add: first_refill_header [OF assms(1)])
    next
      case False
      with t g have c: "take n1 (concat ms) \<noteq> []" "take n2 (concat ms) \<noteq> []" by simp_all
      from g have dm: "decodes Z M" "list_all2 M ms ps" by simp_all
      from gzip_first_chunk_accepted [OF dm c(1)] gzip_first_chunk_accepted [OF dm c(2)] c g
      show ?thesis by (simp add: first_refill_header [OF assms(1)])
    qed
  next
    assume "snd (decompress Z (decompressobj Z) (take n1 data)) = None \<and>
          snd (decompress Z (decompressobj Z) (take n2 data)) = None"
    with t show ?thesis by (simp add: first_refill_header [OF assms(1)])
  qed
  from r h show ?thesis by blast
qed

theorem chunk_size_independent_witness:
  "codec_wf bracket \<and> (0::nat) < 4 \<and> 0 < CHUNK \<and>
   decodes bracket bracket_member \<and>
   list_all2 bracket_member [''<foo>'', ''<bar>''] [''foo'', ''bar''] \<and>
   run bracket 4 (map Read [4, 4]) (init bracket (concat [''<foo>'', ''<bar>'']))
     = Some (Inr ([''foob'', ''ar''],
         \<lparr>stream = [], decompressor = None, header_read = Some True,
          buffer = [], compressed_bytes = 10, uncompressed_bytes = 6\<rparr>)) \<and>
   (\<exists>s2. run bracket CHUNK (map Read [4, 4]) (init bracket (concat [''<foo>'', ''<bar>'']))
     = Some (Inr ([''foob'', ''ar''], s2)))"
proof -
  have m: "list_all2 bracket_member [''<foo>'', ''<bar>''] [''foo'', ''bar'']"
    by (simp add: bracket_member_def plain_def)
  have r: "run bracket 4 (map Read [4, 4]) (init bracket (concat [''<foo>'', ''<bar>'']))
     = Some (Inr ([''foob'', ''ar''],
         \<lparr>stream = [], decompressor = None, header_read = Some True,
          buffer = [], compressed_bytes = 10, uncompressed_bytes = 6\<rparr>))"
    by (simp add: eval_defs)
  have n: "(0::nat) < 4" "0 < CHUNK" by (simp_all add: CHUNK_def)
  have "(decodes bracket bracket_member \<and>
           list_all2 bracket_member [''<foo>'', ''<bar>''] [''foo'', ''bar''] \<and>
           concat [''<foo>'', ''<bar>''] = concat [''<foo>'', ''<bar>'']) \<or>
         (snd (decompress bracket (decompressobj bracket) (take 4 (concat [''<foo>'', ''<bar>''])))
            = None \<and>
          snd (decompress bracket (decompressobj bracket)
            (take CHUNK (concat [''<foo>'', ''<bar>'']))) = None)"
    using bracket_decodes m by simp
  from chunk_size_independent [OF bracket_wf n this, of "[4, 4]"] r
  have "\<exists>s2. run bracket CHUNK (map Read [4, 4]) (init bracket (concat [''<foo>'', ''<bar>'']))
     = Some (Inr ([''foob'', ''ar''], s2))" by auto
  with bracket_wf n bracket_decodes m r show ?thesis by blast
qed

end
